theory Spec2Isabelle
  imports Main "HOL-Library.Word" "HOL-Library.Signed_Division"
begin

unbundle bit_operations_syntax

section \<open>OPScribe: the registry contract\<close>

text \<open>
  A shallow embedding of the contract class \<open>OPScribe\<close>: key derivation
  (\<open>cidToKey\<close>), the chunked string store (\<open>storeString\<close>, \<open>readString\<close>),
  registration (\<open>registerFile\<close>), the read methods and the pause flag.

  Conventions.
  \<^item> Machine integers are words of the declared width: \<open>u8\<close>, \<open>u32\<close>/\<open>i32\<close>
    (one 32 bit word, read by \<open>unat\<close> or by \<open>sint\<close>), \<open>u64\<close>, \<open>u256\<close>.
  \<^item> A string is identified with its UTF-8 encoding, a list of bytes;
    \<open>String.UTF8.encode\<close> and \<open>String.UTF8.decodeUnsafe\<close> are the two directions of
    that identification. The byte length of a string is an \<open>i32\<close> in the source, and
    the managed heap holds no object of \<open>2 ^ 30\<close> bytes or more.
  \<^item> A \<open>StoredMapU256\<close> is a total function from keys to values; a slot that was
    never written reads as zero. Each storage pointer is a map of its own.
  \<^item> A method that can throw returns the error or the result, paired with the store as
    it stands when the method returns or throws. A reverted call persists nothing:
    \<open>apply_call\<close> keeps the store of before the call.
\<close>

subsection \<open>Integers, errors, the storage primitives\<close>

type_synonym u8 = "8 word"
type_synonym u32 = "32 word"
type_synonym i32 = "32 word"
type_synonym u64 = "64 word"
type_synonym u256 = "256 word"
type_synonym bytes = "u8 list"
type_synonym StoredMapU256 = "u256 \<Rightarrow> u256"

datatype error =
    ContractPaused
  | CIDEmpty
  | FileNameEmpty
  | FileSizeZero
  | FileAlreadyRegistered
  | IndexOutOfBounds
  | NotDeployer
  | AdditionOverflow
  | MultiplicationOverflow
  | InvalidLength
  | BufferTooSmall

text \<open>
  Modelled from the spec: \<open>SafeMath.add\<close> and \<open>SafeMath.mul\<close> of the runtime library,
  which is not part of the sources. "Arithmetic (increment, multiply-by-stride) must
  detect and fail closed on overflow rather than silently wrapping."
\<close>

definition SafeMath_add :: "u256 \<Rightarrow> u256 \<Rightarrow> error + u256" where
  "SafeMath_add a b =
     (if unat a + unat b < 2 ^ 256 then Inr (a + b) else Inl AdditionOverflow)"

definition SafeMath_mul :: "u256 \<Rightarrow> u256 \<Rightarrow> error + u256" where
  "SafeMath_mul a b =
     (if unat a * unat b < 2 ^ 256 then Inr (a * b) else Inl MultiplicationOverflow)"

text \<open>\<open>new u256(lo1, lo2, hi1, hi2)\<close>: four 64 bit limbs, least significant first.\<close>

definition u256_new :: "u64 \<Rightarrow> u64 \<Rightarrow> u64 \<Rightarrow> u64 \<Rightarrow> u256" where
  "u256_new lo1 lo2 hi1 hi2 =
     word_of_nat (unat lo1 + 2 ^ 64 * unat lo2 + 2 ^ 128 * unat hi1 + 2 ^ 192 * unat hi2)"

text \<open>\<open>u256.fromBytesBE\<close> and \<open>toUint8Array(true)\<close>: the 32 bytes, most significant first.\<close>

definition fromBytesBE :: "bytes \<Rightarrow> u256" where
  "fromBytesBE bs = foldl (\<lambda>acc b. push_bit 8 acc OR ucast b) 0 bs"

definition toUint8Array :: "u256 \<Rightarrow> bytes" where
  "toUint8Array v = map (\<lambda>i. ucast (drop_bit (8 * (31 - i)) v)) [0..<32]"

text \<open>The \<open>i32\<close> division of the source truncates towards zero.\<close>

definition i32_div :: "i32 \<Rightarrow> i32 \<Rightarrow> i32" where
  "i32_div a b = word_of_int (sint a sdiv sint b)"

subsection \<open>Key derivation\<close>

text \<open>
  The loop of \<open>cidToKey\<close> over the bytes that remain, \<open>i\<close> the index of the next one.
  \<open><u64>i\<close> sign-extends the \<open>i32\<close> counter.
\<close>

fun cidToKey_loop :: "bytes \<Rightarrow> nat \<Rightarrow> u64 \<Rightarrow> u64 \<Rightarrow> u64 \<times> u64" where
  "cidToKey_loop [] i hi lo = (hi, lo)"
| "cidToKey_loop (c # cs) i hi lo =
     (let b = (ucast c :: u64) in
      cidToKey_loop cs (Suc i)
        ((hi XOR b) * 0x100000001b3)
        ((lo XOR (b + scast (word_of_nat i :: i32))) * 0xcbf29ce484222325))"

definition cidToKey :: "bytes \<Rightarrow> u256" where
  "cidToKey cid =
     (case cidToKey_loop cid 0 0xcbf29ce484222325 0x100000001b3 of
        (hi, lo) \<Rightarrow> u256_new lo hi (NOT hi) (NOT lo))"

subsection \<open>The chunked string store\<close>

text \<open>
  The inner loop of \<open>storeString\<close>: a zero-filled array of 32 bytes, then
  \<open>chunkArr[j - start] = bytes[j]\<close> for \<open>start \<le> j < end\<close>.
\<close>

definition fill_chunk :: "bytes \<Rightarrow> i32 \<Rightarrow> i32 \<Rightarrow> bytes" where
  "fill_chunk bs start end =
     map (\<lambda>k. if sint start + int k < sint end then bs ! nat (sint start + int k) else 0)
       [0..<32]"

text \<open>The bound \<open>end\<close> of both inner loops.\<close>

definition chunk_end :: "i32 \<Rightarrow> i32 \<Rightarrow> i32" where
  "chunk_end start totalLen = (if totalLen <s start + 32 then totalLen else start + 32)"

text \<open>The outer loop of \<open>storeString\<close>, over the values \<open>i\<close> of its counter.\<close>

fun storeString_loop ::
  "StoredMapU256 \<Rightarrow> u256 \<Rightarrow> bytes \<Rightarrow> u32 \<Rightarrow> nat list \<Rightarrow> (error + unit) \<times> StoredMapU256"
where
  "storeString_loop m baseKey bs totalLen [] = (Inr (), m)"
| "storeString_loop m baseKey bs totalLen (i # is) =
     (let start = (word_of_nat i :: i32) * 32;
          chunkArr = fill_chunk bs start (chunk_end start totalLen)
      in case SafeMath_add baseKey (ucast (word_of_nat i + 1 :: u32)) of
           Inl e \<Rightarrow> (Inl e, m)
         | Inr slotKey \<Rightarrow>
             storeString_loop (m(slotKey := fromBytesBE chunkArr)) baseKey bs totalLen is)"

definition storeString ::
  "StoredMapU256 \<Rightarrow> u256 \<Rightarrow> bytes \<Rightarrow> (error + unit) \<times> StoredMapU256"
where
  "storeString m baseKey val =
     (let totalLen = (word_of_nat (length val) :: u32);
          m1 = m(baseKey := ucast totalLen);
          chunks = ((totalLen + 31) div 32 :: i32)
      in storeString_loop m1 baseKey val totalLen [0..<nat (sint chunks)])"

text \<open>
  The inner loop of \<open>readString\<close>: \<open>buf[j] = slotBytes[j - start]\<close> for
  \<open>start \<le> j < end\<close>.
\<close>

definition copy_chunk :: "bytes \<Rightarrow> bytes \<Rightarrow> i32 \<Rightarrow> i32 \<Rightarrow> bytes" where
  "copy_chunk buf slotBytes start end =
     map (\<lambda>j. if sint start \<le> int j \<and> int j < sint end
               then slotBytes ! nat (int j - sint start) else buf ! j)
       [0..<length buf]"

fun readString_loop ::
  "StoredMapU256 \<Rightarrow> u256 \<Rightarrow> i32 \<Rightarrow> bytes \<Rightarrow> nat list \<Rightarrow> error + bytes"
where
  "readString_loop m baseKey totalLen buf [] = Inr buf"
| "readString_loop m baseKey totalLen buf (i # is) =
     (case SafeMath_add baseKey (ucast (word_of_nat i + 1 :: u32)) of
        Inl e \<Rightarrow> Inl e
      | Inr slotKey \<Rightarrow>
          (let slotBytes = toUint8Array (m slotKey);
               start = (word_of_nat i :: i32) * 32
           in readString_loop m baseKey totalLen
                (copy_chunk buf slotBytes start (chunk_end start totalLen)) is))"

text \<open>
  \<open>new Uint8Array(totalLen)\<close> throws on a negative length; the buffer is zero-filled.
\<close>

definition readString :: "StoredMapU256 \<Rightarrow> u256 \<Rightarrow> error + bytes" where
  "readString m baseKey =
     (let lengthVal = m baseKey in
      if lengthVal = 0 then Inr []
      else
        let totalLen = (ucast lengthVal :: i32) in
        if totalLen <s 0 then Inl InvalidLength
        else
          let buf = replicate (nat (sint totalLen)) (0 :: u8);
              chunks = i32_div (totalLen + 31) 32
          in readString_loop m baseKey totalLen buf [0..<nat (sint chunks)])"

subsection \<open>The contract\<close>

text \<open>
  What a call sees of its transaction and block: \<open>Blockchain.tx.sender\<close> (an
  \<open>Address\<close>, 32 bytes), \<open>Blockchain.block.number\<close>,
  \<open>Blockchain.block.medianTimestamp\<close>, and the deployer of the contract.
\<close>

record tx_env =
  tx_sender :: bytes
  block_number :: u64
  block_medianTimestamp :: u64
  contractDeployer :: bytes

text \<open>
  The storage of the contract, one field per storage pointer, and the events emitted so
  far (\<open>FileRegistered\<close> carries the file size and the uploader).
\<close>

record state =
  paused :: bool
  totalFiles :: u256
  fileSizes :: StoredMapU256
  fileUploaders :: StoredMapU256
  fileBlocks :: StoredMapU256
  fileTimestamps :: StoredMapU256
  fileExists :: StoredMapU256
  fileNameChunks :: StoredMapU256
  cidChunks :: StoredMapU256
  events :: "(u256 \<times> bytes) list"

text \<open>Storage before deployment: every slot reads as zero, the flag as false.\<close>

definition empty_storage :: state where
  "empty_storage =
     \<lparr>paused = False, totalFiles = 0, fileSizes = (\<lambda>_. 0), fileUploaders = (\<lambda>_. 0),
      fileBlocks = (\<lambda>_. 0), fileTimestamps = (\<lambda>_. 0), fileExists = (\<lambda>_. 0),
      fileNameChunks = (\<lambda>_. 0), cidChunks = (\<lambda>_. 0), events = []\<rparr>"

definition onDeployment :: "state \<Rightarrow> state" where
  "onDeployment s = s\<lparr>totalFiles := 0\<rparr>"

definition deployed :: state where
  "deployed = onDeployment empty_storage"

text \<open>
  \<open>registerFile\<close>, statement by statement. The arguments are the three values read
  from the calldata. The result is paired with the store as the method leaves it, also
  when it throws.
\<close>

definition registerFile ::
  "tx_env \<Rightarrow> state \<Rightarrow> bytes \<Rightarrow> bytes \<Rightarrow> u256 \<Rightarrow> (error + bool) \<times> state"
where
  "registerFile tx s cid fileName fileSize =
     (if paused s then (Inl ContractPaused, s)
      else if length cid = 0 then (Inl CIDEmpty, s)
      else if length fileName = 0 then (Inl FileNameEmpty, s)
      else if fileSize = 0 then (Inl FileSizeZero, s)
      else
        let cidKey = cidToKey cid;
            existsVal = fileExists s cidKey
        in
        if existsVal = 1 then (Inl FileAlreadyRegistered, s)
        else
          let s1 = s\<lparr>fileSizes := (fileSizes s)(cidKey := fileSize)\<rparr>;
              senderBytes = take 32 (tx_sender tx);
              s2 = s1\<lparr>fileUploaders := (fileUploaders s1)(cidKey := fromBytesBE senderBytes)\<rparr>;
              s3 = s2\<lparr>fileBlocks := (fileBlocks s2)(cidKey := ucast (block_number tx))\<rparr>;
              s4 = s3\<lparr>fileTimestamps :=
                        (fileTimestamps s3)(cidKey := ucast (block_medianTimestamp tx))\<rparr>;
              s5 = s4\<lparr>fileExists := (fileExists s4)(cidKey := 1)\<rparr>
          in
          (case storeString (fileNameChunks s5) cidKey fileName of
             (Inl e, m) \<Rightarrow> (Inl e, s5\<lparr>fileNameChunks := m\<rparr>)
           | (Inr _, m) \<Rightarrow>
               (let s6 = s5\<lparr>fileNameChunks := m\<rparr>;
                    currentIndex = totalFiles s6
                in
                (case SafeMath_mul currentIndex 256 of
                   Inl e \<Rightarrow> (Inl e, s6)
                 | Inr cidBaseKey \<Rightarrow>
                     (case storeString (cidChunks s6) cidBaseKey cid of
                        (Inl e, m) \<Rightarrow> (Inl e, s6\<lparr>cidChunks := m\<rparr>)
                      | (Inr _, m) \<Rightarrow>
                          (let s7 = s6\<lparr>cidChunks := m\<rparr> in
                           (case SafeMath_add currentIndex 1 of
                              Inl e \<Rightarrow> (Inl e, s7)
                            | Inr n \<Rightarrow>
                                (Inr True,
                                 s7\<lparr>totalFiles := n,
                                    events := events s7 @ [(fileSize, tx_sender tx)]\<rparr>))))))))"

text \<open>
  \<open>BytesWriter\<close> belongs to the runtime library, which is not part of the sources: a
  buffer of the length given to the constructor, which does not grow; a write that would
  end past the buffer throws. A writer is modelled by the length of its buffer and its
  offset. \<open>writeStringWithLength\<close> writes four bytes of length and then the UTF-8 bytes
  of the string, \<open>writeU256\<close> writes 32 bytes and \<open>writeBoolean\<close> one byte.

  The responses of \<open>registerFile\<close>, \<open>checkFileExists\<close>, \<open>getTotalFiles\<close> and
  \<open>getIsPaused\<close> are one value written to a buffer of the size of that value (lemma
  \<open>response_exact\<close>); these methods are given by the value they write. The buffers of
  \<open>getFile\<close> and \<open>getFileByIndex\<close> are sized from the strings of the record.
\<close>

record BytesWriter =
  bufferLength :: nat
  currentOffset :: nat

definition BytesWriter_new :: "nat \<Rightarrow> BytesWriter" where
  "BytesWriter_new len = \<lparr>bufferLength = len, currentOffset = 0\<rparr>"

definition write_at_offset :: "nat \<Rightarrow> BytesWriter \<Rightarrow> error + BytesWriter" where
  "write_at_offset n w =
     (if currentOffset w + n > bufferLength w then Inl BufferTooSmall
      else Inr (w\<lparr>currentOffset := currentOffset w + n\<rparr>))"

definition U256_BYTE_LENGTH :: nat where
  "U256_BYTE_LENGTH = 32"

definition writeStringWithLength :: "bytes \<Rightarrow> BytesWriter \<Rightarrow> error + BytesWriter" where
  "writeStringWithLength val w =
     (case write_at_offset 4 w of
        Inl e \<Rightarrow> Inl e
      | Inr w' \<Rightarrow> write_at_offset (length val) w')"

definition writeU256 :: "u256 \<Rightarrow> BytesWriter \<Rightarrow> error + BytesWriter" where
  "writeU256 val w = write_at_offset U256_BYTE_LENGTH w"

definition writeBoolean :: "bool \<Rightarrow> BytesWriter \<Rightarrow> error + BytesWriter" where
  "writeBoolean val w = write_at_offset 1 w"

text \<open>The writes of a method, one after the other, up to the first that throws.\<close>

fun write_all ::
  "(BytesWriter \<Rightarrow> error + BytesWriter) list \<Rightarrow> BytesWriter \<Rightarrow> error + BytesWriter"
where
  "write_all [] w = Inr w"
| "write_all (f # fs) w = (case f w of Inl e \<Rightarrow> Inl e | Inr w' \<Rightarrow> write_all fs w')"

text \<open>
  \<open>s.length\<close> of a string \<open>s\<close> counts its UTF-16 code units: one for a character of one,
  two or three UTF-8 bytes, two for a character of four UTF-8 bytes. On the UTF-8 bytes of
  the string, a byte below \<open>0x80\<close> is a character of one byte, a byte from \<open>0xC0\<close> on
  starts a character of two, three or (from \<open>0xF0\<close> on) four bytes, and the bytes in
  between continue a character. For a string of ASCII characters it is the number of
  bytes, and it is less as soon as one character is not ASCII.
\<close>

definition code_units :: "u8 \<Rightarrow> nat" where
  "code_units b = (if b < 0x80 then 1 else if b < 0xC0 then 0 else if b < 0xF0 then 1 else 2)"

definition String_length :: "bytes \<Rightarrow> nat" where
  "String_length s = sum_list (map code_units s)"

text \<open>
  The read methods. The response that a method returns is given as the tuple of the
  values written to it, in order:
  \<open>(fileName, fileSize, uploader, blockNumber, timestamp, exists)\<close> for \<open>getFile\<close>,
  \<open>(cid, fileName, fileSize, uploader, blockNumber, timestamp)\<close> for
  \<open>getFileByIndex\<close>. The buffer of a response is sized with \<open>fileName.length\<close> and
  \<open>cid.length\<close>, and the strings are written as their UTF-8 bytes.
\<close>

definition getFile ::
  "state \<Rightarrow> bytes \<Rightarrow> error + bytes \<times> u256 \<times> u256 \<times> u256 \<times> u256 \<times> bool"
where
  "getFile s cid =
     (let cidKey = cidToKey cid;
          existsVal = fileExists s cidKey;
          exists = (existsVal = 1)
      in
      if \<not> exists then
        (case write_all
                [writeStringWithLength [], writeU256 0, writeU256 0, writeU256 0, writeU256 0,
                 writeBoolean False]
                (BytesWriter_new (4 + U256_BYTE_LENGTH * 4 + 1)) of
           Inl e \<Rightarrow> Inl e
         | Inr response \<Rightarrow> Inr ([], 0, 0, 0, 0, False))
      else
        (case readString (fileNameChunks s) cidKey of
           Inl e \<Rightarrow> Inl e
         | Inr fileName \<Rightarrow>
             (let fileSize = fileSizes s cidKey;
                  uploader = fileUploaders s cidKey;
                  blockNumber = fileBlocks s cidKey;
                  timestamp = fileTimestamps s cidKey
              in
              (case write_all
                      [writeStringWithLength fileName, writeU256 fileSize, writeU256 uploader,
                       writeU256 blockNumber, writeU256 timestamp, writeBoolean True]
                      (BytesWriter_new (4 + String_length fileName + U256_BYTE_LENGTH * 4 + 1)) of
                 Inl e \<Rightarrow> Inl e
               | Inr response \<Rightarrow>
                   Inr (fileName, fileSize, uploader, blockNumber, timestamp, True)))))"


definition getTotalFiles :: "state \<Rightarrow> u256" where
  "getTotalFiles s = totalFiles s"

definition getFileByIndex ::
  "state \<Rightarrow> u256 \<Rightarrow> error + bytes \<times> bytes \<times> u256 \<times> u256 \<times> u256 \<times> u256"
where
  "getFileByIndex s index =
     (if index \<ge> totalFiles s then Inl IndexOutOfBounds
      else
        (case SafeMath_mul index 256 of
           Inl e \<Rightarrow> Inl e
         | Inr cidBaseKey \<Rightarrow>
             (case readString (cidChunks s) cidBaseKey of
                Inl e \<Rightarrow> Inl e
              | Inr cid \<Rightarrow>
                  (let cidKey = cidToKey cid in
                   (case readString (fileNameChunks s) cidKey of
                      Inl e \<Rightarrow> Inl e
                    | Inr fileName \<Rightarrow>
                        (let fileSize = fileSizes s cidKey;
                             uploader = fileUploaders s cidKey;
                             blockNumber = fileBlocks s cidKey;
                             timestamp = fileTimestamps s cidKey
                         in
                         (case write_all
                                 [writeStringWithLength cid, writeStringWithLength fileName,
                                  writeU256 fileSize, writeU256 uploader, writeU256 blockNumber,
                                  writeU256 timestamp]
                                 (BytesWriter_new
                                    (4 + String_length cid + 4 + String_length fileName
                                       + U256_BYTE_LENGTH * 4)) of
                            Inl e \<Rightarrow> Inl e
                          | Inr response \<Rightarrow>
                              Inr (cid, fileName, fileSize, uploader, blockNumber,
                                   timestamp))))))))"


text \<open>
  Modelled from the spec: \<open>onlyDeployer\<close> of the base class \<open>OP_NET\<close>, which is not
  part of the sources. "Callable only by the single authorized operator identity recorded
  at deployment -- any other caller fails with Unauthorized."
\<close>

definition onlyDeployer :: "tx_env \<Rightarrow> error + unit" where
  "onlyDeployer tx = (if tx_sender tx = contractDeployer tx then Inr () else Inl NotDeployer)"

definition pause :: "tx_env \<Rightarrow> state \<Rightarrow> (error + unit) \<times> state" where
  "pause tx s =
     (case onlyDeployer tx of
        Inl e \<Rightarrow> (Inl e, s)
      | Inr _ \<Rightarrow> (Inr (), s\<lparr>paused := True\<rparr>))"

definition unpause :: "tx_env \<Rightarrow> state \<Rightarrow> (error + unit) \<times> state" where
  "unpause tx s =
     (case onlyDeployer tx of
        Inl e \<Rightarrow> (Inl e, s)
      | Inr _ \<Rightarrow> (Inr (), s\<lparr>paused := False\<rparr>))"

subsection \<open>Calls and runs\<close>

text \<open>
  The methods a transaction can call. A call that throws is reverted: the store is the
  one of before the call. The read methods write nothing.
\<close>

datatype call =
    RegisterFile tx_env bytes bytes u256
  | Pause tx_env
  | Unpause tx_env
  | GetFile bytes
  | CheckFileExists bytes
  | GetTotalFiles
  | GetFileByIndex u256
  | GetIsPaused

definition commit :: "state \<Rightarrow> (error + 'a) \<times> state \<Rightarrow> state" where
  "commit s r = (case fst r of Inl _ \<Rightarrow> s | Inr _ \<Rightarrow> snd r)"

fun apply_call :: "state \<Rightarrow> call \<Rightarrow> state" where
  "apply_call s (RegisterFile tx cid fileName fileSize) =
     commit s (registerFile tx s cid fileName fileSize)"
| "apply_call s (Pause tx) = commit s (pause tx s)"
| "apply_call s (Unpause tx) = commit s (unpause tx s)"
| "apply_call s (GetFile cid) = s"
| "apply_call s (CheckFileExists cid) = s"
| "apply_call s GetTotalFiles = s"
| "apply_call s (GetFileByIndex index) = s"
| "apply_call s GetIsPaused = s"

definition run :: "state \<Rightarrow> call list \<Rightarrow> state" where
  "run s cs = foldl apply_call s cs"

text \<open>The identifiers of the registrations of a run that succeed, in call order.\<close>

fun registered :: "state \<Rightarrow> call list \<Rightarrow> bytes list" where
  "registered s [] = []"
| "registered s (RegisterFile tx cid fileName fileSize # cs) =
     (case fst (registerFile tx s cid fileName fileSize) of
        Inl _ \<Rightarrow> registered s cs
      | Inr _ \<Rightarrow> cid # registered (snd (registerFile tx s cid fileName fileSize)) cs)"
| "registered s (c # cs) = registered (apply_call s c) cs"

subsection \<open>Auxiliary notions for the proofs\<close>

text \<open>
  The \<open>i\<close>-th chunk of a byte string, padded with zeros to 32 bytes, and the map
  after the chunks with indices \<open>is\<close> have been written behind \<open>baseKey\<close>.
\<close>

definition chunk_of :: "bytes \<Rightarrow> nat \<Rightarrow> bytes" where
  "chunk_of bs i = map (\<lambda>k. if 32 * i + k < length bs then bs ! (32 * i + k) else 0) [0..<32]"

definition write_chunks :: "u256 \<Rightarrow> bytes \<Rightarrow> nat list \<Rightarrow> StoredMapU256 \<Rightarrow> StoredMapU256" where
  "write_chunks baseKey bs is m =
     fold (\<lambda>i m. m(baseKey + word_of_nat (i + 1) := fromBytesBE (chunk_of bs i))) is m"


subsection \<open>The key derivation in the words of the specification\<close>

text \<open>
  One running accumulator: seeded with a constant and updated for each input byte, in
  order, by an XOR with an operand taken from the byte (and its position \<open>j\<close>) and then
  a multiplication. \<open>deriveKey\<close> runs two of them, each on its own, and assembles the
  key from the two results and their complements.
\<close>

definition accumulate :: "u64 \<Rightarrow> u64 \<Rightarrow> (nat \<Rightarrow> u8 \<Rightarrow> u64) \<Rightarrow> nat \<Rightarrow> bytes \<Rightarrow> u64" where
  "accumulate seed multiplier operand i bs =
     foldl (\<lambda>acc (j, c). (acc XOR operand j c) * multiplier) seed (zip [i..<i + length bs] bs)"

definition deriveKey :: "bytes \<Rightarrow> u256" where
  "deriveKey identifier =
     (let a = accumulate 0xcbf29ce484222325 0x100000001b3 (\<lambda>j c. ucast c) 0 identifier;
          b = accumulate 0x100000001b3 0xcbf29ce484222325
                (\<lambda>j c. ucast c + scast (word_of_nat j :: i32)) 0 identifier
      in u256_new b a (NOT a) (NOT b))"

subsection \<open>What a registration requires and what it writes\<close>

text \<open>
  The store after a registration that went through, and the condition under which
  \<open>registerFile\<close> goes through; both are related to \<open>registerFile\<close> below
  (\<open>registerFile_accepted\<close>, \<open>registerFile_Inr_accepted\<close>).
\<close>

definition written :: "tx_env \<Rightarrow> state \<Rightarrow> bytes \<Rightarrow> bytes \<Rightarrow> u256 \<Rightarrow> state" where
  "written tx s cid n z =
     s\<lparr>fileSizes := (fileSizes s)(cidToKey cid := z),
       fileUploaders := (fileUploaders s)(cidToKey cid := fromBytesBE (take 32 (tx_sender tx))),
       fileBlocks := (fileBlocks s)(cidToKey cid := ucast (block_number tx)),
       fileTimestamps := (fileTimestamps s)(cidToKey cid := ucast (block_medianTimestamp tx)),
       fileExists := (fileExists s)(cidToKey cid := 1),
       fileNameChunks := snd (storeString (fileNameChunks s) (cidToKey cid) n),
       cidChunks := snd (storeString (cidChunks s) (totalFiles s * 256) cid),
       totalFiles := totalFiles s + 1,
       events := events s @ [(z, tx_sender tx)]\<rparr>"

definition accepted :: "state \<Rightarrow> bytes \<Rightarrow> bytes \<Rightarrow> u256 \<Rightarrow> bool" where
  "accepted s cid n z \<longleftrightarrow>
     \<not> paused s \<and> cid \<noteq> [] \<and> n \<noteq> [] \<and> z \<noteq> 0 \<and> fileExists s (cidToKey cid) \<noteq> 1 \<and>
     fst (storeString (fileNameChunks s) (cidToKey cid) n) = Inr () \<and>
     unat (totalFiles s) * 256 < 2 ^ 256 \<and>
     fst (storeString (cidChunks s) (totalFiles s * 256) cid) = Inr ()"

subsection \<open>The identifiers stored by ordinal\<close>

text \<open>
  \<open>cid_stored m j cid\<close>: the region of ordinal \<open>j\<close> in the map \<open>m\<close> holds the length
  and the chunks of \<open>cid\<close>. \<open>ordinals_stored s ids\<close>: the count is the number of the
  identifiers \<open>ids\<close>, each of them fits the stride of 256 slots, and each is stored in the
  region of its ordinal.
\<close>

definition cid_stored :: "StoredMapU256 \<Rightarrow> nat \<Rightarrow> bytes \<Rightarrow> bool" where
  "cid_stored m j cid \<longleftrightarrow>
     m (word_of_nat (256 * j)) = word_of_nat (length cid) \<and>
     (\<forall>i < (length cid + 31) div 32.
        m (word_of_nat (256 * j) + word_of_nat (i + 1)) = fromBytesBE (chunk_of cid i))"

definition ordinals_stored :: "state \<Rightarrow> bytes list \<Rightarrow> bool" where
  "ordinals_stored s ids \<longleftrightarrow>
     unat (totalFiles s) = length ids \<and>
     (\<forall>j < length ids. ids ! j \<noteq> [] \<and> length (ids ! j) \<le> 8160 \<and>
        256 * j + (length (ids ! j) + 31) div 32 < 2 ^ 256 \<and>
        cid_stored (cidChunks s) j (ids ! j))"

subsection \<open>The scenario of the specification\<close>

text \<open>
  The inputs of the end-to-end scenario: ASCII strings as their bytes, and a transaction
  of the uploader \<open>U\<close> (who is also the deployer) at height 100 and time 1700000000.
\<close>

definition utf8 :: "string \<Rightarrow> bytes" where
  "utf8 s = map (\<lambda>c. of_char c) s"

definition tx_U :: tx_env where
  "tx_U = \<lparr>tx_sender = replicate 32 0x55, block_number = 100,
            block_medianTimestamp = 1700000000, contractDeployer = replicate 32 0x55\<rparr>"

section \<open>Lemmas\<close>

subsection \<open>Bytes and words\<close>

lemma fromBytesBE_snoc: "fromBytesBE (bs @ [b]) = push_bit 8 (fromBytesBE bs) OR ucast b"
  by (simp add: fromBytesBE_def)

lemma bit_fromBytesBE:
  "bit (fromBytesBE bs) n \<longleftrightarrow>
     n < 256 \<and> n < 8 * length bs \<and> bit (bs ! (length bs - 1 - n div 8)) (n mod 8)"
proof (induction bs arbitrary: n rule: rev_induct)
  case Nil
  show ?case by (simp add: fromBytesBE_def)
next
  case (snoc b bs)
  show ?case
  proof (cases "n < 8")
    case True
    then show ?thesis
      by (simp add: fromBytesBE_snoc bit_simps)
  next
    case False
    define q where "q = (n - 8) div 8"
    have d: "n div 8 = Suc q" and m: "n mod 8 = (n - 8) mod 8"
      using False by (simp_all add: q_def le_div_geq le_mod_geq)
    have nb: "\<not> bit b n"
      using False by (auto dest: bit_imp_le_length)
    have lt: "q < length bs" if "n - 8 < 8 * length bs"
      using that by (simp add: q_def less_mult_imp_div_less mult.commute)
    have "bit (fromBytesBE (bs @ [b])) n \<longleftrightarrow> n < 256 \<and> bit (fromBytesBE bs) (n - 8)"
      using False nb by (auto simp add: fromBytesBE_snoc bit_simps)
    also have "\<dots> \<longleftrightarrow> n < 256 \<and> n - 8 < 8 * length bs
         \<and> bit (bs ! (length bs - 1 - q)) ((n - 8) mod 8)"
      using snoc.IH [of "n - 8"] by (auto simp: q_def)
    also have "\<dots> \<longleftrightarrow> n < 256 \<and> n < 8 * length (bs @ [b])
         \<and> bit ((bs @ [b]) ! (length (bs @ [b]) - 1 - n div 8)) (n mod 8)"
    proof (cases "n - 8 < 8 * length bs")
      case True
      from lt [OF True] have "length bs - Suc q < length bs" by simp
      moreover have "n < 8 + 8 * length bs" using True False by linarith
      ultimately show ?thesis using True False lt [OF True]
        by (simp add: d m nth_append)
    next
      case F: False
      then have "\<not> n < 8 * length (bs @ [b])" using False by simp
      then show ?thesis using F by simp
    qed
    finally show ?thesis .
  qed
qed

lemma toUint8Array_fromBytesBE_nth:
  assumes "length bs = 32" "i < 32"
  shows "toUint8Array (fromBytesBE bs) ! i = bs ! i"
proof (rule bit_word_eqI)
  fix k assume "k < LENGTH(8)"
  then have k: "k < 8" by simp
  have a: "(8 * (31 - i) + k) div 8 = 31 - i" using k by simp
  have b: "(8 * (31 - i) + k) mod 8 = k" using k by simp
  have c: "8 * (31 - i) + k < 256" using k assms by simp
  show "bit (toUint8Array (fromBytesBE bs) ! i) k = bit (bs ! i) k"
    using assms k c by (simp add: toUint8Array_def bit_simps bit_fromBytesBE a b)
qed

lemma length_toUint8Array [simp]: "length (toUint8Array v) = 32"
  by (simp add: toUint8Array_def)

lemma toUint8Array_fromBytesBE: "length bs = 32 \<Longrightarrow> toUint8Array (fromBytesBE bs) = bs"
  by (rule nth_equalityI) (simp_all add: toUint8Array_fromBytesBE_nth)

subsection \<open>Arithmetic of the 32 bit counters\<close>

lemma sint_of_nat_i32: "n < 2 ^ 31 \<Longrightarrow> sint (word_of_nat n :: i32) = int n"
  by (simp add: signed_of_nat signed_take_bit_int_eq_self)

lemma unat_of_nat_u32: "n < 2 ^ 32 \<Longrightarrow> unat (word_of_nat n :: u32) = n"
  by (simp add: unat_of_nat)

lemma unat_of_nat_u256: "n < 2 ^ 256 \<Longrightarrow> unat (word_of_nat n :: u256) = n"
  by (simp add: unat_of_nat)

lemma ucast_of_nat_u32_u256: "n < 2 ^ 32 \<Longrightarrow> (ucast (word_of_nat n :: u32) :: u256) = word_of_nat n"
  by (simp add: unsigned_of_nat take_bit_nat_eq_self)

lemma chunks_eq:
  assumes "n < 2 ^ 30"
  shows "((word_of_nat n + 31) div 32 :: u32) = word_of_nat ((n + 31) div 32)"
proof -
  have "unat (word_of_nat n + 31 :: u32) = n + 31"
    using assms unat_of_nat_u32 [of "n + 31"] by simp
  then show ?thesis
    by (simp add: word_arith_nat_div)
qed

lemma i32_div_eq:
  assumes "n < 2 ^ 30"
  shows "i32_div (word_of_nat n + 31) 32 = word_of_nat ((n + 31) div 32)"
proof -
  have "sint (word_of_nat n + 31 :: i32) = int (n + 31)"
    using assms sint_of_nat_i32 [of "n + 31"] by simp
  moreover have "sint (32 :: i32) = 32" by simp
  moreover have "int (n + 31) sdiv 32 = int ((n + 31) div 32)"
    by (simp add: signed_divide_int_def zdiv_int)
  ultimately show ?thesis
    by (simp add: i32_div_def)
qed

lemma SafeMath_add_slot:
  assumes "i + 1 < 2 ^ 32" "unat baseKey + i + 1 < 2 ^ 256"
  shows "SafeMath_add baseKey (ucast (word_of_nat i + 1 :: u32)) = Inr (baseKey + word_of_nat (i + 1))"
proof -
  have c: "(ucast (word_of_nat i + 1 :: u32) :: u256) = word_of_nat (i + 1)"
    using assms(1) ucast_of_nat_u32_u256 [of "i + 1"] by (simp add: ac_simps)
  have d: "unat (word_of_nat (i + 1) :: u256) = i + 1"
    using assms(1) by (intro unat_of_nat_u256) simp
  show ?thesis using assms d unfolding SafeMath_add_def c
    by simp
qed

lemma chunk_end_eq:
  assumes "n < 2 ^ 30" "32 * i < n"
  shows "sint (chunk_end (word_of_nat i * 32) (word_of_nat n)) = int (min (32 * i + 32) n)"
    and "sint (word_of_nat i * 32 :: i32) = int (32 * i)"
proof -
  have s: "sint (word_of_nat i * 32 :: i32) = int (32 * i)"
    using assms sint_of_nat_i32 [of "32 * i"] by (simp add: ac_simps)
  have e: "sint (word_of_nat i * 32 + 32 :: i32) = int (32 * i + 32)"
    using assms sint_of_nat_i32 [of "32 * i + 32"] by (simp add: ac_simps)
  have t: "sint (word_of_nat n :: i32) = int n"
    using assms by (intro sint_of_nat_i32) simp
  show "sint (word_of_nat i * 32 :: i32) = int (32 * i)" by (fact s)
  show "sint (chunk_end (word_of_nat i * 32) (word_of_nat n)) = int (min (32 * i + 32) n)"
    unfolding chunk_end_def word_sless_alt e t
    using e t by (auto simp: min_def)
qed

lemma fill_chunk_eq:
  assumes "length bs < 2 ^ 30" "32 * i < length bs"
  shows "fill_chunk bs (word_of_nat i * 32) (chunk_end (word_of_nat i * 32) (word_of_nat (length bs)))
           = chunk_of bs i"
proof -
  have n: "nat (int (32 * i) + int k) = 32 * i + k" for k
    by (simp only: nat_int flip: of_nat_add)
  have c: "int (32 * i) + int k < int (min (32 * i + 32) (length bs)) \<longleftrightarrow> 32 * i + k < length bs"
    if "k < 32" for k
    using that by (auto simp: min_def)
  show ?thesis
    unfolding fill_chunk_def chunk_of_def chunk_end_eq [OF assms]
  proof (rule map_cong [OF refl])
    fix k assume "k \<in> set [0..<32]"
    then have k: "k < 32" by simp
    show "(if int (32 * i) + int k < int (min (32 * i + 32) (length bs))
           then bs ! nat (int (32 * i) + int k) else 0) =
          (if 32 * i + k < length bs then bs ! (32 * i + k) else 0)"
      unfolding c [OF k] n by (rule refl)
  qed
qed

lemma copy_chunk_eq:
  assumes "n < 2 ^ 30" "32 * i < n" "length buf = n"
  shows "copy_chunk buf sb (word_of_nat i * 32) (chunk_end (word_of_nat i * 32) (word_of_nat n))
           = map (\<lambda>j. if j div 32 = i then sb ! (j mod 32) else buf ! j) [0..<n]"
  unfolding copy_chunk_def chunk_end_eq [OF assms(1,2)] assms(3)
proof (rule map_cong [OF refl])
  fix j assume "j \<in> set [0..<n]"
  then have j: "j < n" by simp
  have eq: "(int (32 * i) \<le> int j \<and> int j < int (min (32 * i + 32) n)) \<longleftrightarrow> j div 32 = i"
    using j by (auto simp: min_def)
  have m: "nat (int j - int (32 * i)) = j mod 32" if "j div 32 = i"
    using that by (auto simp: nat_diff_distrib' modulo_nat_def)
  show "(if int (32 * i) \<le> int j \<and> int j < int (min (32 * i + 32) n)
         then sb ! nat (int j - int (32 * i)) else buf ! j) =
        (if j div 32 = i then sb ! (j mod 32) else buf ! j)"
    unfolding eq using m by simp
qed

subsection \<open>The loops of the string store\<close>

lemma write_chunks_Nil [simp]: "write_chunks baseKey bs [] m = m"
  by (simp add: write_chunks_def)

lemma write_chunks_Cons:
  "write_chunks baseKey bs (i # is) m =
     write_chunks baseKey bs is (m(baseKey + word_of_nat (i + 1) := fromBytesBE (chunk_of bs i)))"
  by (simp add: write_chunks_def del: of_nat_add of_nat_Suc)

lemma write_chunks_other:
  "(\<forall>i\<in>set is. k \<noteq> baseKey + word_of_nat (i + 1)) \<Longrightarrow> write_chunks baseKey bs is m k = m k"
  by (induction "is" arbitrary: m) (simp_all add: write_chunks_Cons del: of_nat_add of_nat_Suc)

lemma slot_inj:
  assumes "i + 1 < 2 ^ 256" "j + 1 < 2 ^ 256"
    and "(baseKey :: u256) + word_of_nat (i + 1) = baseKey + word_of_nat (j + 1)"
  shows "i = j"
proof -
  from assms(3) have "(word_of_nat (i + 1) :: u256) = word_of_nat (j + 1)"
    by (simp only: add_left_cancel)
  then have "take_bit 256 (i + 1) = take_bit 256 (j + 1)"
    by (simp only: word_of_nat_eq_iff) simp
  then show ?thesis
    using assms(1,2) by (simp add: take_bit_nat_eq_self)
qed

lemma slot_neq_base:
  assumes "i + 1 < 2 ^ 256"
  shows "(baseKey :: u256) + word_of_nat (i + 1) \<noteq> baseKey"
proof
  assume "baseKey + word_of_nat (i + 1) = baseKey"
  then have "(word_of_nat (i + 1) :: u256) = word_of_nat 0"
    by (simp del: of_nat_add of_nat_Suc)
  then have "take_bit 256 (i + 1) = take_bit 256 (0 :: nat)"
    by (simp only: word_of_nat_eq_iff) simp
  then show False
    using assms by (simp add: take_bit_nat_eq_self)
qed

lemma write_chunks_at:
  assumes "i \<in> set is" "\<forall>j\<in>set is. j + 1 < 2 ^ 256"
  shows "write_chunks baseKey bs is m (baseKey + word_of_nat (i + 1)) = fromBytesBE (chunk_of bs i)"
  using assms
proof (induction "is" arbitrary: m)
  case Nil
  then show ?case by simp
next
  case (Cons a as)
  show ?case
  proof (cases "i \<in> set as")
    case True
    with Cons show ?thesis by (simp add: write_chunks_Cons del: of_nat_add of_nat_Suc)
  next
    case False
    with Cons.prems have ia: "i = a" by simp
    have "\<forall>j\<in>set as. baseKey + word_of_nat (i + 1) \<noteq> baseKey + word_of_nat (j + 1)"
    proof
      fix j assume j: "j \<in> set as"
      with False have "i \<noteq> j" by auto
      moreover have "i + 1 < 2 ^ 256" "j + 1 < 2 ^ 256" using Cons.prems j by auto
      ultimately show "baseKey + word_of_nat (i + 1) \<noteq> baseKey + word_of_nat (j + 1)"
        using slot_inj by blast
    qed
    then show ?thesis
      by (simp add: write_chunks_Cons write_chunks_other ia del: of_nat_add of_nat_Suc)
  qed
qed

lemma storeString_loop_ok:
  assumes "length bs < 2 ^ 30"
    and "\<forall>i\<in>set is. 32 * i < length bs \<and> unat baseKey + i + 1 < 2 ^ 256"
  shows "storeString_loop m baseKey bs (word_of_nat (length bs)) is =
           (Inr (), write_chunks baseKey bs is m)"
  using assms(2)
proof (induction "is" arbitrary: m)
  case Nil
  show ?case by simp
next
  case (Cons i "is")
  then have i: "32 * i < length bs" "unat baseKey + i + 1 < 2 ^ 256" by simp_all
  have "i + 1 < 2 ^ 32" using i(1) assms(1) by simp
  from SafeMath_add_slot [OF this i(2)] fill_chunk_eq [OF assms(1) i(1)] Cons
  show ?case
    by (simp add: write_chunks_Cons del: of_nat_add of_nat_Suc)
qed

lemma SafeMath_add_slot_overflow:
  assumes "i + 1 < 2 ^ 32" "\<not> unat baseKey + i + 1 < 2 ^ 256"
  shows "SafeMath_add baseKey (ucast (word_of_nat i + 1 :: u32)) = Inl AdditionOverflow"
proof -
  have c: "(ucast (word_of_nat i + 1 :: u32) :: u256) = word_of_nat (i + 1)"
    using assms(1) ucast_of_nat_u32_u256 [of "i + 1"] by (simp add: ac_simps)
  have d: "unat (word_of_nat (i + 1) :: u256) = i + 1"
    using assms(1) by (intro unat_of_nat_u256) simp
  show ?thesis using assms d unfolding SafeMath_add_def c
    by simp
qed

lemma storeString_loop_overflow:
  assumes "length bs < 2 ^ 30"
    and "\<forall>i\<in>set is. 32 * i < length bs"
    and "\<exists>i\<in>set is. \<not> unat baseKey + i + 1 < 2 ^ 256"
  shows "fst (storeString_loop m baseKey bs (word_of_nat (length bs)) is) = Inl AdditionOverflow"
  using assms(2,3)
proof (induction "is" arbitrary: m)
  case Nil
  then show ?case by simp
next
  case (Cons i "is")
  then have i: "32 * i < length bs" by simp
  have lt: "i + 1 < 2 ^ 32" using i assms(1) by simp
  show ?case
  proof (cases "unat baseKey + i + 1 < 2 ^ 256")
    case True
    with Cons.prems have "\<exists>i\<in>set is. \<not> unat baseKey + i + 1 < 2 ^ 256" by auto
    with Cons SafeMath_add_slot [OF lt True] show ?thesis
      by (simp add: Let_def del: of_nat_add of_nat_Suc)
  next
    case False
    from SafeMath_add_slot_overflow [OF lt False] show ?thesis
      by (simp del: of_nat_add of_nat_Suc)
  qed
qed

lemma readString_loop_ok:
  assumes "n < 2 ^ 30"
    and "length buf = n"
    and "\<forall>i\<in>set is. 32 * i < n \<and> unat baseKey + i + 1 < 2 ^ 256"
  shows "readString_loop m baseKey (word_of_nat n) buf is =
           Inr (map (\<lambda>j. if j div 32 \<in> set is
                          then toUint8Array (m (baseKey + word_of_nat (j div 32 + 1))) ! (j mod 32)
                          else buf ! j) [0..<n])"
  using assms(2,3)
proof (induction "is" arbitrary: buf)
  case Nil
  then show ?case using map_nth [of buf] by simp
next
  case (Cons i "is")
  then have i: "32 * i < n" "unat baseKey + i + 1 < 2 ^ 256" by simp_all
  have lt: "i + 1 < 2 ^ 32" using i(1) assms(1) by simp
  define sb where "sb = toUint8Array (m (baseKey + word_of_nat (i + 1)))"
  define buf' where "buf' = map (\<lambda>j. if j div 32 = i then sb ! (j mod 32) else buf ! j) [0..<n]"
  have len: "length buf' = n" by (simp add: buf'_def)
  have step: "readString_loop m baseKey (word_of_nat n) buf (i # is) =
              readString_loop m baseKey (word_of_nat n) buf' is"
    using SafeMath_add_slot [OF lt i(2)] copy_chunk_eq [OF assms(1) i(1) Cons.prems(1), of sb]
    by (simp add: sb_def buf'_def del: of_nat_add of_nat_Suc)
  have "readString_loop m baseKey (word_of_nat n) buf' is =
           Inr (map (\<lambda>j. if j div 32 \<in> set is
                          then toUint8Array (m (baseKey + word_of_nat (j div 32 + 1))) ! (j mod 32)
                          else buf' ! j) [0..<n])"
    using Cons.IH [OF len] Cons.prems(2) by simp
  also have "map (\<lambda>j. if j div 32 \<in> set is
                          then toUint8Array (m (baseKey + word_of_nat (j div 32 + 1))) ! (j mod 32)
                          else buf' ! j) [0..<n] =
        map (\<lambda>j. if j div 32 \<in> set (i # is)
                          then toUint8Array (m (baseKey + word_of_nat (j div 32 + 1))) ! (j mod 32)
                          else buf ! j) [0..<n]"
    by (rule map_cong [OF refl]) (auto simp: buf'_def sb_def simp del: of_nat_add of_nat_Suc)
  finally show ?case using step by simp
qed

lemma nchunks_index: "i < (n + 31) div 32 \<longleftrightarrow> 32 * i < (n :: nat)"
  by (auto simp: less_divide_eq_numeral1 div_less_iff_less_mult)

lemma storeString_prelude:
  assumes "length bs < 2 ^ 30"
  shows "storeString m baseKey bs =
           storeString_loop (m(baseKey := word_of_nat (length bs))) baseKey bs
             (word_of_nat (length bs)) [0..<(length bs + 31) div 32]"
proof -
  have u: "(ucast (word_of_nat (length bs) :: u32) :: u256) = word_of_nat (length bs)"
    using assms by (intro ucast_of_nat_u32_u256) simp
  have "sint (word_of_nat ((length bs + 31) div 32) :: i32) = int ((length bs + 31) div 32)"
    using assms by (intro sint_of_nat_i32) simp
  then have c: "nat (sint ((word_of_nat (length bs) + 31) div 32 :: u32)) = (length bs + 31) div 32"
    by (simp add: chunks_eq [OF assms])
  show ?thesis
    unfolding storeString_def Let_def u c by (rule refl)
qed

lemma storeString_ok:
  assumes "length bs < 2 ^ 30" "unat baseKey + (length bs + 31) div 32 < 2 ^ 256"
  shows "storeString m baseKey bs =
           (Inr (), write_chunks baseKey bs [0..<(length bs + 31) div 32]
                      (m(baseKey := word_of_nat (length bs))))"
  unfolding storeString_prelude [OF assms(1)]
  using assms(2) by (intro storeString_loop_ok [OF assms(1)]) (auto simp: nchunks_index)

lemma storeString_overflow:
  assumes "length bs < 2 ^ 30" "\<not> unat baseKey + (length bs + 31) div 32 < 2 ^ 256"
  shows "fst (storeString m baseKey bs) = Inl AdditionOverflow"
  unfolding storeString_prelude [OF assms(1)]
proof (rule storeString_loop_overflow [OF assms(1)])
  show "\<forall>i\<in>set [0..<(length bs + 31) div 32]. 32 * i < length bs"
    by (simp add: nchunks_index)
  have "unat baseKey < 2 ^ 256" using unsigned_less [of baseKey] by simp
  with assms(2) have "0 < (length bs + 31) div 32" by (cases "(length bs + 31) div 32") auto
  then have "(length bs + 31) div 32 - 1 \<in> set [0..<(length bs + 31) div 32]" by simp
  moreover have "\<not> unat baseKey + ((length bs + 31) div 32 - 1) + 1 < 2 ^ 256"
    using assms(2) \<open>0 < (length bs + 31) div 32\<close> by simp
  ultimately show "\<exists>i\<in>set [0..<(length bs + 31) div 32]. \<not> unat baseKey + i + 1 < 2 ^ 256"
    by blast
qed

lemma readString_ok:
  assumes "m baseKey = word_of_nat n" "0 < n" "n < 2 ^ 30"
    and "unat baseKey + (n + 31) div 32 < 2 ^ 256"
  shows "readString m baseKey =
           Inr (map (\<lambda>j. toUint8Array (m (baseKey + word_of_nat (j div 32 + 1))) ! (j mod 32)) [0..<n])"
proof -
  have nz: "(word_of_nat n :: u256) \<noteq> 0"
    using assms(2,3) unat_of_nat_u256 [of n] by (auto simp del: of_nat_eq_0_iff)
  have u: "(ucast (word_of_nat n :: u256) :: i32) = word_of_nat n"
    by (simp add: unsigned_of_nat take_bit_nat_eq_self word_of_nat_eq_iff min_def)
  have s: "sint (word_of_nat n :: i32) = int n"
    using assms(3) by (intro sint_of_nat_i32) simp
  have "sint (word_of_nat ((n + 31) div 32) :: i32) = int ((n + 31) div 32)"
    using assms(3) by (intro sint_of_nat_i32) simp
  then have c: "nat (sint (i32_div (word_of_nat n + 31) 32)) = (n + 31) div 32"
    by (simp add: i32_div_eq [OF assms(3)])
  have neg: "\<not> (word_of_nat n :: i32) <s 0"
    by (simp add: word_sless_alt s)
  have "readString m baseKey =
          readString_loop m baseKey (word_of_nat n) (replicate n 0) [0..<(n + 31) div 32]"
    unfolding readString_def Let_def assms(1) u c using nz neg s by simp
  also have "\<dots> = Inr (map (\<lambda>j. if j div 32 \<in> set [0..<(n + 31) div 32]
                          then toUint8Array (m (baseKey + word_of_nat (j div 32 + 1))) ! (j mod 32)
                          else replicate n 0 ! j) [0..<n])"
    using assms(4) by (intro readString_loop_ok [OF assms(3)]) (auto simp: nchunks_index)
  also have "map (\<lambda>j. if j div 32 \<in> set [0..<(n + 31) div 32]
                          then toUint8Array (m (baseKey + word_of_nat (j div 32 + 1))) ! (j mod 32)
                          else replicate n 0 ! j) [0..<n] =
             map (\<lambda>j. toUint8Array (m (baseKey + word_of_nat (j div 32 + 1))) ! (j mod 32)) [0..<n]"
    by (rule map_cong [OF refl]) (auto simp: nchunks_index simp del: of_nat_add of_nat_Suc)
  finally show ?thesis .
qed

lemma length_chunk_of [simp]: "length (chunk_of bs i) = 32"
  by (simp add: chunk_of_def)

lemma chunk_of_nth: "j < length bs \<Longrightarrow> chunk_of bs (j div 32) ! (j mod 32) = bs ! j"
  by (simp add: chunk_of_def)

lemma storeString_readString:
  assumes "length bs < 2 ^ 30" "unat baseKey + (length bs + 31) div 32 < 2 ^ 256"
  shows "readString (snd (storeString m baseKey bs)) baseKey = Inr bs"
proof (cases "bs = []")
  case True
  then show ?thesis by (simp add: storeString_def readString_def)
next
  case False
  define n where "n = length bs"
  define m' where "m' = write_chunks baseKey bs [0..<(n + 31) div 32] (m(baseKey := word_of_nat n))"
  have st: "snd (storeString m baseKey bs) = m'"
    using storeString_ok [OF assms] by (simp add: m'_def n_def)
  have n: "0 < n" "n < 2 ^ 30" using False assms(1) by (simp_all add: n_def)
  have small: "i + 1 < 2 ^ 256" if "i < (n + 31) div 32" for i
  proof -
    have "i + 1 \<le> unat baseKey + (n + 31) div 32" using that by simp
    with assms(2) show ?thesis by (simp add: n_def)
  qed
  have base: "m' baseKey = word_of_nat n"
    unfolding m'_def
    by (subst write_chunks_other) (use small slot_neq_base in \<open>auto simp del: of_nat_add of_nat_Suc\<close>)
  have slot: "m' (baseKey + word_of_nat (i + 1)) = fromBytesBE (chunk_of bs i)"
    if "i < (n + 31) div 32" for i
    unfolding m'_def using that small by (intro write_chunks_at) auto
  have "readString m' baseKey =
          Inr (map (\<lambda>j. toUint8Array (m' (baseKey + word_of_nat (j div 32 + 1))) ! (j mod 32)) [0..<n])"
    using assms(2) by (intro readString_ok [of m' baseKey n, OF base n]) (simp add: n_def)
  also have "map (\<lambda>j. toUint8Array (m' (baseKey + word_of_nat (j div 32 + 1))) ! (j mod 32)) [0..<n]
             = map (\<lambda>j. bs ! j) [0..<n]"
  proof (rule map_cong [OF refl])
    fix j assume "j \<in> set [0..<n]"
    then have j: "j < n" by simp
    then have "j div 32 < (n + 31) div 32" by (simp add: nchunks_index)
    from slot [OF this] show "toUint8Array (m' (baseKey + word_of_nat (j div 32 + 1))) ! (j mod 32) = bs ! j"
      using j by (simp add: toUint8Array_fromBytesBE chunk_of_nth n_def del: of_nat_add of_nat_Suc)
  qed
  also have "\<dots> = bs" by (simp add: n_def map_nth)
  finally show ?thesis by (simp add: st)
qed

subsection \<open>Key derivation\<close>

lemma accumulate_Nil [simp]: "accumulate seed mult operand i [] = seed"
  by (simp add: accumulate_def)

lemma accumulate_Cons:
  "accumulate seed mult operand i (c # cs) =
     accumulate ((seed XOR operand i c) * mult) mult operand (Suc i) cs"
  by (simp add: accumulate_def upt_conv_Cons del: upt_Suc)

lemma cidToKey_loop_accumulate:
  "cidToKey_loop cs i hi lo =
     (accumulate hi 0x100000001b3 (\<lambda>j c. ucast c) i cs,
      accumulate lo 0xcbf29ce484222325 (\<lambda>j c. ucast c + scast (word_of_nat j :: i32)) i cs)"
  by (induction cs arbitrary: i hi lo) (simp_all add: accumulate_Cons Let_def)


lemma unat_u64_less: "unat (x :: u64) < 2 ^ 64"
  using unsigned_less [of x] by simp

lemma unat_u256_new:
  "unat (u256_new a b c d) = unat a + 2 ^ 64 * unat b + 2 ^ 128 * unat c + 2 ^ 192 * unat d"
proof -
  have "unat a + 2 ^ 64 * unat b + 2 ^ 128 * unat c + 2 ^ 192 * unat d < 2 ^ 256"
    using unat_u64_less [of a] unat_u64_less [of b] unat_u64_less [of c] unat_u64_less [of d]
    by simp
  then show ?thesis
    unfolding u256_new_def by (rule unat_of_nat_u256)
qed

lemma unat_NOT_u64: "unat (NOT x :: u64) = 2 ^ 64 - 1 - unat x"
proof -
  have "NOT x = - 1 - x" by (simp add: not_eq_complement)
  moreover have "unat (- 1 - x) = unat (- 1 :: u64) - unat x"
    by (rule unat_sub) simp
  ultimately show ?thesis
    by (simp add: unsigned_minus_1_eq_mask mask_eq_exp_minus_1)
qed

lemma unat_cidToKey_le: "unat (cidToKey cid) \<le> 2 ^ 256 - 2 ^ 128"
proof -
  obtain hi lo where l: "cidToKey_loop cid 0 0xcbf29ce484222325 0x100000001b3 = (hi, lo)"
    by (cases "cidToKey_loop cid 0 0xcbf29ce484222325 0x100000001b3")
  have k: "unat (cidToKey cid) =
      unat lo + 2 ^ 64 * unat hi + 2 ^ 128 * (2 ^ 64 - 1 - unat hi) + 2 ^ 192 * (2 ^ 64 - 1 - unat lo)"
    by (simp add: cidToKey_def l unat_u256_new unat_NOT_u64)
  show ?thesis
    unfolding k using unat_u64_less [of hi] unat_u64_less [of lo] by simp
qed

lemma even_unsigned_word: "even (unsigned (w :: 'a::len word) :: 'b::len word) \<longleftrightarrow> even w"
proof -
  have "bit (unsigned w :: 'b word) 0 \<longleftrightarrow> bit w 0"
    by (simp add: bit_unsigned_iff)
  then show ?thesis by (simp add: bit_0)
qed

lemma even_unat_word: "even (unat (w :: 'a::len word)) \<longleftrightarrow> even w"
proof -
  have "bit (unat w) 0 \<longleftrightarrow> bit w 0"
    by (simp add: bit_unsigned_iff)
  then show ?thesis by (simp add: bit_0)
qed

lemma odd_multipliers: "odd (0x100000001b3 :: u64)" "odd (0xcbf29ce484222325 :: u64)"
  by simp_all

lemma cidToKey_loop_hi_parity:
  "even (fst (cidToKey_loop cs i hi lo)) \<longleftrightarrow> (even hi \<longleftrightarrow> even (length (filter odd cs)))"
  by (induction cs arbitrary: i hi lo)
    (simp_all add: Let_def even_unsigned_word even_xor_iff, auto)

lemma key_hi_parity:
  "even (unat (cidToKey cid) div 2 ^ 64) \<longleftrightarrow>
     even (fst (cidToKey_loop cid 0 0xcbf29ce484222325 0x100000001b3))"
proof -
  obtain hi lo where l: "cidToKey_loop cid 0 0xcbf29ce484222325 0x100000001b3 = (hi, lo)"
    by (cases "cidToKey_loop cid 0 0xcbf29ce484222325 0x100000001b3")
  have "unat (cidToKey cid) =
      unat lo + 2 ^ 64 * (unat hi + 2 ^ 64 * unat (NOT hi) + 2 ^ 128 * unat (NOT lo))"
    by (simp add: cidToKey_def l unat_u256_new)
  then have "unat (cidToKey cid) div 2 ^ 64 = unat hi + 2 ^ 64 * unat (NOT hi) + 2 ^ 128 * unat (NOT lo)"
    using unat_u64_less [of lo] by simp
  then show ?thesis by (simp add: l even_unat_word)
qed

lemma cidToKey_parity:
  "even (unat (cidToKey cid) div 2 ^ 64) \<longleftrightarrow> odd (length (filter odd cid))"
  unfolding key_hi_parity cidToKey_loop_hi_parity by simp

lemma long_short_keys: "cidToKey (replicate 8161 0x61) \<noteq> cidToKey [0x62]"
proof
  assume "cidToKey (replicate 8161 0x61) = cidToKey [0x62]"
  then have "odd (length (filter odd (replicate 8161 (0x61 :: u8)))) \<longleftrightarrow>
     odd (length (filter odd [0x62 :: u8]))"
    by (simp only: flip: cidToKey_parity)
  then show False by simp
qed

lemma cidToKey_collision:
  "\<exists>a b. a \<noteq> b \<and> set a \<subseteq> {0x61, 0x62} \<and> set b \<subseteq> {0x61, 0x62} \<and>
         length a = 129 \<and> length b = 129 \<and> cidToKey a = cidToKey b"
proof -
  define A where "A = {xs :: bytes. set xs \<subseteq> {0x61, 0x62} \<and> length xs = 129}"
  have fin: "finite A" unfolding A_def by (rule finite_lists_length_eq) simp
  have "card {0x61, 0x62 :: u8} = 2" by simp
  then have cA: "card A = 2 ^ 129"
    unfolding A_def by (subst card_lists_length_eq) (simp_all only: finite.intros)
  have "cidToKey ` A \<subseteq> (\<lambda>(hi, lo). u256_new lo hi (NOT hi) (NOT lo)) ` (UNIV :: (u64 \<times> u64) set)"
    by (auto simp: cidToKey_def split: prod.splits)
  then have "card (cidToKey ` A) \<le> card ((\<lambda>(hi, lo). u256_new lo hi (NOT hi) (NOT lo)) ` (UNIV :: (u64 \<times> u64) set))"
    by (intro card_mono) simp_all
  also have "\<dots> \<le> card (UNIV :: (u64 \<times> u64) set)"
    by (rule card_image_le) simp
  also have "\<dots> = 2 ^ 128" by (simp add: card_word card_cartesian_product flip: UNIV_Times_UNIV)
  also have "\<dots> < card A" by (simp add: cA)
  finally have "\<not> inj_on cidToKey A" using pigeonhole by blast
  then show ?thesis unfolding inj_on_def A_def by blast
qed

subsection \<open>Registration\<close>


lemma registerFile_exists:
  "\<not> paused s \<Longrightarrow> cid \<noteq> [] \<Longrightarrow> n \<noteq> [] \<Longrightarrow> z \<noteq> 0 \<Longrightarrow> fileExists s (cidToKey cid) = 1 \<Longrightarrow>
     registerFile tx s cid n z = (Inl FileAlreadyRegistered, s)"
  by (simp add: registerFile_def)

lemma registerFile_invalid:
  "\<not> paused s \<Longrightarrow> cid = [] \<or> n = [] \<or> z = 0 \<Longrightarrow>
     registerFile tx s cid n z =
       (Inl (if cid = [] then CIDEmpty else if n = [] then FileNameEmpty else FileSizeZero), s)"
  by (auto simp add: registerFile_def)

lemma count_succ: "unat (c :: u256) * 256 < 2 ^ 256 \<Longrightarrow> unat c + 1 < 2 ^ 256"
  by simp

lemma registerFile_accepted:
  assumes "accepted s cid n z"
  shows "registerFile tx s cid n z = (Inr True, written tx s cid n z)"
proof -
  from assms have c: "unat (totalFiles s) * 256 < 2 ^ 256" by (simp add: accepted_def)
  then have "unat (totalFiles s) + 1 < 2 ^ 256" by simp
  moreover obtain m1 where "storeString (fileNameChunks s) (cidToKey cid) n = (Inr (), m1)"
    using assms by (cases "storeString (fileNameChunks s) (cidToKey cid) n") (simp add: accepted_def)
  moreover obtain m2 where "storeString (cidChunks s) (totalFiles s * 256) cid = (Inr (), m2)"
    using assms by (cases "storeString (cidChunks s) (totalFiles s * 256) cid") (simp add: accepted_def)
  ultimately show ?thesis using assms c
    by (simp add: accepted_def registerFile_def Let_def SafeMath_mul_def SafeMath_add_def
        written_def)
qed

lemma registerFile_Inr_accepted:
  assumes "fst (registerFile tx s cid n z) = Inr r"
  shows "accepted s cid n z"
  using assms
  by (auto simp add: accepted_def registerFile_def Let_def SafeMath_mul_def SafeMath_add_def
      split: if_splits prod.splits sum.splits)

lemma registerFile_Inl_totalFiles:
  assumes "fst (registerFile tx s cid n z) = Inl e"
  shows "totalFiles (snd (registerFile tx s cid n z)) = totalFiles s"
    and "paused (snd (registerFile tx s cid n z)) = paused s"
  using assms
  by (auto simp add: registerFile_def Let_def
      split: if_splits prod.splits sum.splits)

lemmas eval_defs = registerFile_def deployed_def onDeployment_def empty_storage_def Let_def
     storeString_def SafeMath_add_def SafeMath_mul_def fill_chunk_def chunk_end_def fromBytesBE_def
     word_sless_alt cidToKey_def u256_new_def utf8_def tx_U_def

subsection \<open>Calls and runs: what is preserved\<close>

lemma run_Nil [simp]: "run s [] = s"
  by (simp add: run_def)

lemma run_Cons [simp]: "run s (c # cs) = run (apply_call s c) cs"
  by (simp add: run_def)

lemma run_append: "run s (cs @ ds) = run (run s cs) ds"
  by (simp add: run_def)

lemma registerFile_Inr_written:
  assumes "fst (registerFile tx s cid n z) = Inr r"
  shows "registerFile tx s cid n z = (Inr True, written tx s cid n z)"
  using registerFile_accepted [OF registerFile_Inr_accepted [OF assms]] .

lemma apply_call_RegisterFile:
  "apply_call s (RegisterFile tx cid n z) =
     (if accepted s cid n z then written tx s cid n z else s)"
proof (cases "accepted s cid n z")
  case True
  then show ?thesis by (simp add: commit_def registerFile_accepted)
next
  case False
  then have "\<exists>e. fst (registerFile tx s cid n z) = Inl e"
    using registerFile_Inr_accepted [of tx s cid n z]
    by (cases "fst (registerFile tx s cid n z)") auto
  with False show ?thesis by (auto simp add: commit_def)
qed

lemma registered_RegisterFile:
  "registered s (RegisterFile tx cid n z # cs) =
     (if accepted s cid n z then cid # registered (written tx s cid n z) cs else registered s cs)"
proof (cases "accepted s cid n z")
  case True
  then show ?thesis by (simp add: registerFile_accepted)
next
  case False
  then have "\<exists>e. fst (registerFile tx s cid n z) = Inl e"
    using registerFile_Inr_accepted [of tx s cid n z]
    by (cases "fst (registerFile tx s cid n z)") auto
  with False show ?thesis by auto
qed

lemma written_simps [simp]:
  "paused (written tx s cid n z) = paused s"
  "totalFiles (written tx s cid n z) = totalFiles s + 1"
  "fileExists (written tx s cid n z) = (fileExists s)(cidToKey cid := 1)"
  "fileSizes (written tx s cid n z) = (fileSizes s)(cidToKey cid := z)"
  "fileUploaders (written tx s cid n z) =
     (fileUploaders s)(cidToKey cid := fromBytesBE (take 32 (tx_sender tx)))"
  "fileBlocks (written tx s cid n z) = (fileBlocks s)(cidToKey cid := ucast (block_number tx))"
  "fileTimestamps (written tx s cid n z) =
     (fileTimestamps s)(cidToKey cid := ucast (block_medianTimestamp tx))"
  "fileNameChunks (written tx s cid n z) = snd (storeString (fileNameChunks s) (cidToKey cid) n)"
  "cidChunks (written tx s cid n z) = snd (storeString (cidChunks s) (totalFiles s * 256) cid)"
  by (simp_all add: written_def)

lemma unat_count_succ:
  assumes "unat (c :: u256) * 256 < 2 ^ 256"
  shows "unat (c + 1) = unat c + 1"
proof -
  have "unat c + unat (1 :: u256) < 2 ^ LENGTH(256)" using assms by simp
  then have "unat (c + 1) = unat c + unat (1 :: u256)" by (simp only: unat_add_lem)
  then show ?thesis by simp
qed

lemma apply_call_paused_totalFiles:
  "(\<forall>tx cid n z. c \<noteq> RegisterFile tx cid n z) \<Longrightarrow> totalFiles (apply_call s c) = totalFiles s"
  by (cases c) (auto simp: commit_def pause_def unpause_def split: sum.splits)

lemma apply_call_fileExists:
  "(\<forall>tx cid n z. c \<noteq> RegisterFile tx cid n z) \<Longrightarrow> fileExists (apply_call s c) = fileExists s"
  by (cases c) (auto simp: commit_def pause_def unpause_def split: sum.splits)

lemma apply_call_count_mono: "unat (totalFiles s) \<le> unat (totalFiles (apply_call s c))"
proof (cases "\<exists>tx cid n z. c = RegisterFile tx cid n z")
  case True
  then obtain tx cid n z where c: "c = RegisterFile tx cid n z" by blast
  show ?thesis
    by (auto simp add: c apply_call_RegisterFile accepted_def unat_count_succ
        simp del: apply_call.simps)
next
  case False
  then show ?thesis by (simp add: apply_call_paused_totalFiles)
qed

lemma run_count: "unat (totalFiles (run s cs)) = unat (totalFiles s) + length (registered s cs)"
proof (induction cs arbitrary: s)
  case Nil
  show ?case by simp
next
  case (Cons c cs)
  show ?case
  proof (cases "\<exists>tx cid n z. c = RegisterFile tx cid n z")
    case True
    then obtain tx cid n z where c: "c = RegisterFile tx cid n z" by blast
    show ?thesis
      by (auto simp add: c apply_call_RegisterFile registered_RegisterFile Cons.IH
          accepted_def unat_count_succ simp del: apply_call.simps registered.simps)
  next
    case False
    then have "registered s (c # cs) = registered (apply_call s c) cs"
      by (cases c) auto
    with False show ?thesis
      by (simp add: Cons.IH apply_call_paused_totalFiles)
  qed
qed

lemma apply_call_exists_keeps: "fileExists s k = 1 \<Longrightarrow> fileExists (apply_call s c) k = 1"
proof (cases "\<exists>tx cid n z. c = RegisterFile tx cid n z")
  case True
  then obtain tx cid n z where c: "c = RegisterFile tx cid n z" by blast
  assume "fileExists s k = 1"
  then show ?thesis by (simp add: c apply_call_RegisterFile del: apply_call.simps)
next
  case False
  assume "fileExists s k = 1"
  with False show ?thesis by (simp add: apply_call_fileExists)
qed

lemma run_exists_keeps: "fileExists s k = 1 \<Longrightarrow> fileExists (run s cs) k = 1"
  by (induction cs arbitrary: s) (simp_all add: apply_call_exists_keeps)

lemma run_exists_registered:
  "fileExists (run s cs) k = 1 \<Longrightarrow> fileExists s k = 1 \<or> k \<in> cidToKey ` set (registered s cs)"
proof (induction cs arbitrary: s)
  case Nil
  then show ?case by simp
next
  case (Cons c cs)
  from Cons.prems have "fileExists (run (apply_call s c) cs) k = 1" by simp
  from Cons.IH [OF this]
  have d: "fileExists (apply_call s c) k = 1 \<or> k \<in> cidToKey ` set (registered (apply_call s c) cs)" .
  show ?case
  proof (cases "\<exists>tx cid n z. c = RegisterFile tx cid n z")
    case True
    then obtain tx cid n z where c: "c = RegisterFile tx cid n z" by blast
    show ?thesis using d
      by (auto simp add: c apply_call_RegisterFile registered_RegisterFile
          simp del: apply_call.simps registered.simps split: if_splits)
  next
    case False
    then have "registered s (c # cs) = registered (apply_call s c) cs"
      by (cases c) auto
    with d False show ?thesis by (simp add: apply_call_fileExists)
  qed
qed

lemma unat_times_256:
  assumes "unat (c :: u256) * 256 < 2 ^ 256"
  shows "unat (c * 256) = unat c * 256"
proof -
  have "unat c * unat (256 :: u256) < 2 ^ LENGTH(256)" using assms by simp
  then have "unat (c * 256) = unat c * unat (256 :: u256)" by (simp only: unat_mult_lem)
  then show ?thesis by simp
qed

lemma accepted_sufficient:
  assumes "\<not> paused s" "cid \<noteq> []" "n \<noteq> []" "z \<noteq> 0" "fileExists s (cidToKey cid) \<noteq> 1"
    and "length n < 2 ^ 30" "length cid < 2 ^ 30"
    and "unat (totalFiles s) * 256 + (length cid + 31) div 32 < 2 ^ 256"
  shows "accepted s cid n z"
proof -
  have "(length n + 31) div 32 < 2 ^ 26" using assms(6) by simp
  then have "unat (cidToKey cid) + (length n + 31) div 32 < 2 ^ 256"
    using unat_cidToKey_le [of cid] by simp
  from storeString_ok [OF assms(6) this]
  have a: "fst (storeString (fileNameChunks s) (cidToKey cid) n) = Inr ()" by simp
  have c: "unat (totalFiles s) * 256 < 2 ^ 256" using assms(8) by simp
  have "unat (totalFiles s * 256) + (length cid + 31) div 32 < 2 ^ 256"
    using assms(8) by (simp add: unat_times_256 [OF c])
  from storeString_ok [OF assms(7) this]
  have b: "fst (storeString (cidChunks s) (totalFiles s * 256) cid) = Inr ()" by simp
  show ?thesis using assms(1-5) a b c by (simp add: accepted_def)
qed






subsection \<open>The response of a read method\<close>

lemma String_length_ascii: "\<forall>b\<in>set s. b < 0x80 \<Longrightarrow> String_length s = length s"
  by (induction s) (simp_all add: String_length_def code_units_def)

lemma String_length_replicate_a [simp]: "String_length (replicate n 0x61) = n"
  by (simp add: String_length_ascii)

lemma String_length_Nil [simp]: "String_length [] = 0"
  by (simp add: String_length_def)

lemma response_getFile:
  "write_all
     [writeStringWithLength n, writeU256 a, writeU256 b, writeU256 c, writeU256 d, writeBoolean e]
     (BytesWriter_new cap) =
   (if 133 + length n \<le> cap then Inr \<lparr>bufferLength = cap, currentOffset = 133 + length n\<rparr>
    else Inl BufferTooSmall)"
  by (simp add: writeStringWithLength_def writeU256_def writeBoolean_def write_at_offset_def
      BytesWriter_new_def U256_BYTE_LENGTH_def)

lemma response_getFileByIndex:
  "write_all
     [writeStringWithLength c, writeStringWithLength n, writeU256 a, writeU256 b, writeU256 d,
      writeU256 e]
     (BytesWriter_new cap) =
   (if 136 + length c + length n \<le> cap
    then Inr \<lparr>bufferLength = cap, currentOffset = 136 + length c + length n\<rparr>
    else Inl BufferTooSmall)"
  by (simp add: writeStringWithLength_def writeU256_def writeBoolean_def write_at_offset_def
      BytesWriter_new_def U256_BYTE_LENGTH_def)

lemma response_exact:
  "write_all [writeBoolean b] (BytesWriter_new 1) = Inr \<lparr>bufferLength = 1, currentOffset = 1\<rparr>"
  "write_all [writeU256 v] (BytesWriter_new U256_BYTE_LENGTH) =
     Inr \<lparr>bufferLength = 32, currentOffset = 32\<rparr>"
  by (simp_all add: writeU256_def writeBoolean_def write_at_offset_def BytesWriter_new_def
      U256_BYTE_LENGTH_def)

lemma getFile_miss_state:
  "fileExists s (cidToKey cid) \<noteq> 1 \<Longrightarrow> getFile s cid = Inr ([], 0, 0, 0, 0, False)"
  by (simp add: getFile_def response_getFile U256_BYTE_LENGTH_def del: write_all.simps)

lemma getFile_hit_state:
  "fileExists s (cidToKey cid) = 1 \<Longrightarrow> getFile s cid \<noteq> Inr ([], 0, 0, 0, 0, False)"
  by (simp add: getFile_def Let_def split: sum.split)

lemma getFile_hit:
  assumes "fileExists s (cidToKey cid) = 1"
    and "readString (fileNameChunks s) (cidToKey cid) = Inr fileName"
  shows "getFile s cid =
     (if length fileName \<le> String_length fileName
      then Inr (fileName, fileSizes s (cidToKey cid), fileUploaders s (cidToKey cid),
                fileBlocks s (cidToKey cid), fileTimestamps s (cidToKey cid), True)
      else Inl BufferTooSmall)"
  using assms
  by (simp add: getFile_def Let_def response_getFile U256_BYTE_LENGTH_def del: write_all.simps)

lemma getFileByIndex_hit:
  assumes "i < totalFiles s" and "unat i * 256 < 2 ^ 256"
    and "readString (cidChunks s) (i * 256) = Inr cid"
    and "readString (fileNameChunks s) (cidToKey cid) = Inr fileName"
  shows "getFileByIndex s i =
     (if length cid + length fileName \<le> String_length cid + String_length fileName
      then Inr (cid, fileName, fileSizes s (cidToKey cid), fileUploaders s (cidToKey cid),
                fileBlocks s (cidToKey cid), fileTimestamps s (cidToKey cid))
      else Inl BufferTooSmall)"
  using assms
  by (simp add: getFileByIndex_def SafeMath_mul_def Let_def response_getFileByIndex
      U256_BYTE_LENGTH_def not_le del: write_all.simps)

subsection \<open>The read methods and the pause flag\<close>



subsection \<open>Lookup by ordinal when the identifiers fit the stride\<close>

lemma deployed_simps [simp]:
  "paused deployed = False" "totalFiles deployed = 0" "fileExists deployed = (\<lambda>_. 0)"
  "cidChunks deployed = (\<lambda>_. 0)" "fileNameChunks deployed = (\<lambda>_. 0)"
  by (simp_all add: deployed_def onDeployment_def empty_storage_def)

lemma word_of_nat_neq:
  assumes "a < 2 ^ 256" "b < 2 ^ 256" "a \<noteq> b"
  shows "(word_of_nat a :: u256) \<noteq> word_of_nat b"
  using assms by (simp add: word_of_nat_eq_iff take_bit_nat_eq_self)

lemma storeString_base:
  assumes "length bs < 2 ^ 30" "unat baseKey + (length bs + 31) div 32 < 2 ^ 256"
  shows "snd (storeString m baseKey bs) baseKey = word_of_nat (length bs)"
proof -
  have small: "i + 1 < 2 ^ 256" if "i < (length bs + 31) div 32" for i
    using that assms(2) by simp
  have "write_chunks baseKey bs [0..<(length bs + 31) div 32]
          (m(baseKey := word_of_nat (length bs))) baseKey
        = (m(baseKey := word_of_nat (length bs))) baseKey"
    by (rule write_chunks_other) (use small slot_neq_base in \<open>auto simp del: of_nat_add of_nat_Suc\<close>)
  then show ?thesis by (simp add: storeString_ok [OF assms])
qed

lemma storeString_slot:
  assumes "length bs < 2 ^ 30" "unat baseKey + (length bs + 31) div 32 < 2 ^ 256"
    and "i < (length bs + 31) div 32"
  shows "snd (storeString m baseKey bs) (baseKey + word_of_nat (i + 1)) = fromBytesBE (chunk_of bs i)"
proof -
  have "\<forall>j\<in>set [0..<(length bs + 31) div 32]. j + 1 < 2 ^ 256"
    using assms(2) by auto
  moreover have "i \<in> set [0..<(length bs + 31) div 32]" using assms(3) by simp
  ultimately show ?thesis
    unfolding storeString_ok [OF assms(1,2)] snd_conv by (intro write_chunks_at)
qed

lemma storeString_other:
  assumes "length bs < 2 ^ 30" "unat baseKey + (length bs + 31) div 32 < 2 ^ 256"
    and "k \<noteq> baseKey" "\<forall>i < (length bs + 31) div 32. k \<noteq> baseKey + word_of_nat (i + 1)"
  shows "snd (storeString m baseKey bs) k = m k"
proof -
  have "write_chunks baseKey bs [0..<(length bs + 31) div 32]
          (m(baseKey := word_of_nat (length bs))) k
        = (m(baseKey := word_of_nat (length bs))) k"
    by (rule write_chunks_other) (use assms(4) in auto)
  then show ?thesis using assms(3) by (simp add: storeString_ok [OF assms(1,2)])
qed

lemma word_of_nat_add_u256: "(word_of_nat a :: u256) + word_of_nat b = word_of_nat (a + b)"
  by simp

lemma cid_stored_new:
  assumes "length cid < 2 ^ 30" "256 * j + (length cid + 31) div 32 < 2 ^ 256"
  shows "cid_stored (snd (storeString m (word_of_nat (256 * j)) cid)) j cid"
proof -
  have "256 * j < 2 ^ 256" using assms(2) by simp
  then have u: "unat (word_of_nat (256 * j) :: u256) = 256 * j" by (rule unat_of_nat_u256)
  have b: "unat (word_of_nat (256 * j) :: u256) + (length cid + 31) div 32 < 2 ^ 256"
    unfolding u by (fact assms(2))
  show ?thesis
    unfolding cid_stored_def
    using storeString_base [OF assms(1) b] storeString_slot [OF assms(1) b] by blast
qed

lemma cid_stored_keeps:
  assumes "cid_stored m j cid" "length cid \<le> 8160" "j < n"
    and "length cid' < 2 ^ 30" "256 * n + (length cid' + 31) div 32 < 2 ^ 256"
  shows "cid_stored (snd (storeString m (word_of_nat (256 * n)) cid')) j cid"
proof -
  have "256 * n < 2 ^ 256" using assms(5) by simp
  then have u: "unat (word_of_nat (256 * n) :: u256) = 256 * n" by (rule unat_of_nat_u256)
  have b: "unat (word_of_nat (256 * n) :: u256) + (length cid' + 31) div 32 < 2 ^ 256"
    unfolding u by (fact assms(5))
  have c: "(length cid + 31) div 32 \<le> 255" using assms(2) by simp
  have other: "snd (storeString m (word_of_nat (256 * n)) cid') (word_of_nat (256 * j + t)) =
      m (word_of_nat (256 * j + t))" if "t \<le> 255" for t
  proof (rule storeString_other [OF assms(4) b])
    have lt: "256 * j + t < 256 * n" using that assms(3) by simp
    show "(word_of_nat (256 * j + t) :: u256) \<noteq> word_of_nat (256 * n)"
      using lt \<open>256 * n < 2 ^ 256\<close> by (intro word_of_nat_neq) simp_all
    show "\<forall>i<(length cid' + 31) div 32.
        (word_of_nat (256 * j + t) :: u256) \<noteq> word_of_nat (256 * n) + word_of_nat (i + 1)"
    proof (intro allI impI)
      fix i assume "i < (length cid' + 31) div 32"
      then have "256 * n + (i + 1) < 2 ^ 256" using assms(5) by simp
      then have "(word_of_nat (256 * j + t) :: u256) \<noteq> word_of_nat (256 * n + (i + 1))"
        using lt by (intro word_of_nat_neq) simp_all
      then show "(word_of_nat (256 * j + t) :: u256) \<noteq> word_of_nat (256 * n) + word_of_nat (i + 1)"
        unfolding word_of_nat_add_u256 .
    qed
  qed
  have base: "snd (storeString m (word_of_nat (256 * n)) cid') (word_of_nat (256 * j)) =
      m (word_of_nat (256 * j))"
    using other [of 0] by simp
  have slot: "snd (storeString m (word_of_nat (256 * n)) cid')
        (word_of_nat (256 * j) + word_of_nat (i + 1)) =
      m (word_of_nat (256 * j) + word_of_nat (i + 1))" if "i < (length cid + 31) div 32" for i
  proof -
    have "i + 1 \<le> 255" using that c by simp
    from other [OF this] show ?thesis unfolding word_of_nat_add_u256 .
  qed
  show ?thesis
    unfolding cid_stored_def
  proof (intro conjI allI impI)
    show "snd (storeString m (word_of_nat (256 * n)) cid') (word_of_nat (256 * j)) =
        word_of_nat (length cid)"
      using assms(1) unfolding base cid_stored_def by blast
  next
    fix i assume i: "i < (length cid + 31) div 32"
    show "snd (storeString m (word_of_nat (256 * n)) cid')
          (word_of_nat (256 * j) + word_of_nat (i + 1)) = fromBytesBE (chunk_of cid i)"
      using assms(1) i unfolding slot [OF i] cid_stored_def by blast
  qed
qed

lemma cid_stored_readString:
  assumes "cid_stored m j cid" "cid \<noteq> []" "length cid < 2 ^ 30"
    and "256 * j + (length cid + 31) div 32 < 2 ^ 256"
  shows "readString m (word_of_nat (256 * j)) = Inr cid"
proof -
  define n where "n = length cid"
  have "256 * j < 2 ^ 256" using assms(4) by simp
  then have u: "unat (word_of_nat (256 * j) :: u256) = 256 * j" by (rule unat_of_nat_u256)
  have b: "m (word_of_nat (256 * j)) = word_of_nat n"
    using assms(1) by (simp add: cid_stored_def n_def)
  have n: "0 < n" "n < 2 ^ 30" using assms(2,3) by (simp_all add: n_def)
  have ov: "unat (word_of_nat (256 * j) :: u256) + (n + 31) div 32 < 2 ^ 256"
    unfolding u n_def by (fact assms(4))
  have "readString m (word_of_nat (256 * j)) =
      Inr (map (\<lambda>k. toUint8Array (m (word_of_nat (256 * j) + word_of_nat (k div 32 + 1))) ! (k mod 32))
             [0..<n])"
    by (rule readString_ok [of m "word_of_nat (256 * j)" n, OF b n ov])
  also have "map (\<lambda>k. toUint8Array (m (word_of_nat (256 * j) + word_of_nat (k div 32 + 1))) ! (k mod 32))
             [0..<n] = map (\<lambda>k. cid ! k) [0..<n]"
  proof (rule map_cong [OF refl])
    fix k assume "k \<in> set [0..<n]"
    then have k: "k < length cid" by (simp add: n_def)
    then have "k div 32 < (length cid + 31) div 32" by (simp add: nchunks_index)
    with assms(1) have "m (word_of_nat (256 * j) + word_of_nat (k div 32 + 1)) =
        fromBytesBE (chunk_of cid (k div 32))"
      unfolding cid_stored_def by blast
    then show "toUint8Array (m (word_of_nat (256 * j) + word_of_nat (k div 32 + 1))) ! (k mod 32) = cid ! k"
      using k by (simp add: toUint8Array_fromBytesBE chunk_of_nth del: of_nat_add of_nat_Suc)
  qed
  also have "\<dots> = cid" by (simp add: n_def map_nth)
  finally show ?thesis .
qed

lemma accepted_cid_fits:
  assumes "accepted s cid n z" "length cid < 2 ^ 30"
  shows "unat (totalFiles s) * 256 + (length cid + 31) div 32 < 2 ^ 256"
proof (rule ccontr)
  assume a: "\<not> unat (totalFiles s) * 256 + (length cid + 31) div 32 < 2 ^ 256"
  from assms(1) have c: "unat (totalFiles s) * 256 < 2 ^ 256" by (simp add: accepted_def)
  from a have "\<not> unat (totalFiles s * 256) + (length cid + 31) div 32 < 2 ^ 256"
    by (simp only: unat_times_256 [OF c]) simp
  from storeString_overflow [OF assms(2) this, of "cidChunks s"] assms(1)
  show False by (simp add: accepted_def)
qed

lemma ordinals_stored_written:
  assumes "ordinals_stored s ids" "accepted s cid n z" "length cid \<le> 8160"
  shows "ordinals_stored (written tx s cid n z) (ids @ [cid])"
proof -
  define N where "N = length ids"
  have N: "unat (totalFiles s) = N" using assms(1) by (simp add: ordinals_stored_def N_def)
  then have t: "totalFiles s = word_of_nat N" by (simp flip: N)
  have len: "length cid < 2 ^ 30" using assms(3) by simp
  have fits: "256 * N + (length cid + 31) div 32 < 2 ^ 256"
    using accepted_cid_fits [OF assms(2) len] by (simp add: N mult.commute)
  have c: "unat (totalFiles s) * 256 < 2 ^ 256" using assms(2) by (simp add: accepted_def)
  have base: "totalFiles s * 256 = word_of_nat (256 * N)" by (simp add: t)
  have ne: "cid \<noteq> []" using assms(2) by (simp add: accepted_def)
  have cnt: "unat (totalFiles (written tx s cid n z)) = length (ids @ [cid])"
    by (simp add: unat_count_succ [OF c] N N_def)
  have each: "(ids @ [cid]) ! j \<noteq> [] \<and> length ((ids @ [cid]) ! j) \<le> 8160 \<and>
      256 * j + (length ((ids @ [cid]) ! j) + 31) div 32 < 2 ^ 256 \<and>
      cid_stored (cidChunks (written tx s cid n z)) j ((ids @ [cid]) ! j)"
    if "j < length (ids @ [cid])" for j
  proof (cases "j < N")
    case True
    with assms(1) have old: "ids ! j \<noteq> []" "length (ids ! j) \<le> 8160"
      "cid_stored (cidChunks s) j (ids ! j)"
      "256 * j + (length (ids ! j) + 31) div 32 < 2 ^ 256"
      by (simp_all add: ordinals_stored_def N_def)
    from cid_stored_keeps [OF old(3) old(2) True len fits]
    show ?thesis using True old(1,2,4) by (simp add: base nth_append N_def)
  next
    case False
    with that have j: "j = N" by (simp add: N_def)
    from cid_stored_new [OF len fits]
    show ?thesis using ne assms(3) fits by (simp add: j base nth_append N_def)
  qed
  from cnt each show ?thesis unfolding ordinals_stored_def by blast
qed

lemma apply_call_cidChunks:
  "(\<forall>tx cid n z. c \<noteq> RegisterFile tx cid n z) \<Longrightarrow> cidChunks (apply_call s c) = cidChunks s"
  by (cases c) (auto simp: commit_def pause_def unpause_def split: sum.splits)

lemma ordinals_stored_run:
  assumes "ordinals_stored s ids" "\<forall>cid\<in>set (registered s cs). length cid \<le> 8160"
  shows "ordinals_stored (run s cs) (ids @ registered s cs)"
  using assms
proof (induction cs arbitrary: s ids)
  case Nil
  then show ?case by simp
next
  case (Cons c cs)
  show ?case
  proof (cases "\<exists>tx cid n z. c = RegisterFile tx cid n z")
    case True
    then obtain tx cid n z where c: "c = RegisterFile tx cid n z" by blast
    show ?thesis
    proof (cases "accepted s cid n z")
      case acc: True
      then have r: "registered s (RegisterFile tx cid n z # cs) =
          cid # registered (written tx s cid n z) cs"
        by (simp add: registered_RegisterFile del: registered.simps(2))
      with Cons.prems(2) have b: "length cid \<le> 8160"
        "\<forall>x\<in>set (registered (written tx s cid n z) cs). length x \<le> 8160"
        unfolding c by simp_all
      from Cons.IH [OF ordinals_stored_written [OF Cons.prems(1) acc b(1)] b(2)]
      show ?thesis using acc
        by (simp add: c r apply_call_RegisterFile del: apply_call.simps registered.simps(2))
    next
      case False
      then have r: "registered s (RegisterFile tx cid n z # cs) = registered s cs"
        by (simp add: registered_RegisterFile del: registered.simps(2))
      from Cons.IH [OF Cons.prems(1)] Cons.prems(2) False show ?thesis
        unfolding c by (simp add: r apply_call_RegisterFile del: apply_call.simps registered.simps(2))
    qed
  next
    case False
    then have r: "registered s (c # cs) = registered (apply_call s c) cs"
      by (cases c) auto
    have "ordinals_stored (apply_call s c) ids"
      using Cons.prems(1) False
      by (simp add: ordinals_stored_def apply_call_cidChunks apply_call_paused_totalFiles)
    from Cons.IH [OF this] Cons.prems(2) show ?thesis by (simp add: r)
  qed
qed

lemma ordinals_stored_deployed: "ordinals_stored deployed []"
  by (simp add: ordinals_stored_def)

lemma ordinal_identifier:
  assumes "\<forall>cid\<in>set (registered deployed cs). length cid \<le> 8160"
    and "j < length (registered deployed cs)"
  shows "readString (cidChunks (run deployed cs)) (word_of_nat j * 256) = Inr (registered deployed cs ! j)"
proof -
  define s where "s = run deployed cs"
  define ids where "ids = registered deployed cs"
  have inv: "ordinals_stored s ids"
    using ordinals_stored_run [OF ordinals_stored_deployed assms(1)] by (simp add: s_def ids_def)
  then have st: "ids ! j \<noteq> []" "length (ids ! j) \<le> 8160" "cid_stored (cidChunks s) j (ids ! j)"
    and a: "256 * j + (length (ids ! j) + 31) div 32 < 2 ^ 256"
    using assms(2) by (simp_all add: ordinals_stored_def ids_def)
  have "readString (cidChunks s) (word_of_nat (256 * j)) = Inr (ids ! j)"
    using st(2) by (intro cid_stored_readString [OF st(3) st(1) _ a]) simp
  then show ?thesis by (simp add: s_def ids_def mult.commute)
qed

lemma registered_exists:
  "cid \<in> set (registered s cs) \<Longrightarrow> fileExists (run s cs) (cidToKey cid) = 1"
proof (induction cs arbitrary: s)
  case Nil
  then show ?case by simp
next
  case (Cons c cs)
  show ?case
  proof (cases "\<exists>tx cid' n z. c = RegisterFile tx cid' n z")
    case True
    then obtain tx cid' n z where c: "c = RegisterFile tx cid' n z" by blast
    show ?thesis
    proof (cases "accepted s cid' n z")
      case acc: True
      then have r: "registered s (RegisterFile tx cid' n z # cs) =
          cid' # registered (written tx s cid' n z) cs"
        by (simp add: registered_RegisterFile del: registered.simps(2))
      show ?thesis
      proof (cases "cid \<in> set (registered (written tx s cid' n z) cs)")
        case True
        from Cons.IH [OF this] acc show ?thesis
          by (simp add: c apply_call_RegisterFile del: apply_call.simps)
      next
        case False
        with Cons.prems have "cid = cid'" unfolding c r by simp
        then have "fileExists (written tx s cid' n z) (cidToKey cid) = 1" by simp
        from run_exists_keeps [OF this] acc show ?thesis
          by (simp add: c apply_call_RegisterFile del: apply_call.simps)
      qed
    next
      case False
      then have r: "registered s (RegisterFile tx cid' n z # cs) = registered s cs"
        by (simp add: registered_RegisterFile del: registered.simps(2))
      from Cons.prems have "cid \<in> set (registered s cs)" unfolding c r .
      from Cons.IH [OF this] False show ?thesis
        by (simp add: c apply_call_RegisterFile del: apply_call.simps)
    qed
  next
    case False
    then have r: "registered s (c # cs) = registered (apply_call s c) cs"
      by (cases c) auto
    from Cons.prems have "cid \<in> set (registered (apply_call s c) cs)" unfolding r .
    from Cons.IH [OF this] show ?thesis by simp
  qed
qed

lemma getFileByIndex_fits:
  assumes "\<forall>cid\<in>set (registered deployed cs). length cid \<le> 8160"
    and "j < length (registered deployed cs)"
    and "String_length (registered deployed cs ! j) = length (registered deployed cs ! j)"
  shows "getFileByIndex (run deployed cs) (word_of_nat j) =
     (case getFile (run deployed cs) (registered deployed cs ! j) of
        Inl e \<Rightarrow> Inl e
      | Inr (fileName, fileSize, uploader, blockNumber, timestamp, ex) \<Rightarrow>
          Inr (registered deployed cs ! j, fileName, fileSize, uploader, blockNumber, timestamp))"
proof -
  define s where "s = run deployed cs"
  define ids where "ids = registered deployed cs"
  have inv: "ordinals_stored s ids"
    using ordinals_stored_run [OF ordinals_stored_deployed assms(1)] by (simp add: s_def ids_def)
  then have a: "256 * j + (length (ids ! j) + 31) div 32 < 2 ^ 256"
    and cnt: "unat (totalFiles s) = length ids"
    using assms(2) by (simp_all add: ordinals_stored_def ids_def)
  have j: "unat (word_of_nat j :: u256) = j"
    using a by (intro unat_of_nat_u256) simp
  have lt: "\<not> totalFiles s \<le> word_of_nat j"
    using assms(2) by (simp add: word_le_nat_alt j cnt ids_def)
  have mul: "SafeMath_mul (word_of_nat j) 256 = Inr (word_of_nat j * 256)"
    using a by (simp add: SafeMath_mul_def j)
  have rd: "readString (cidChunks s) (word_of_nat j * 256) = Inr (ids ! j)"
    using ordinal_identifier [OF assms(1,2)] by (simp add: s_def ids_def)
  have "ids ! j \<in> set ids" using assms(2) by (simp add: ids_def)
  then have ex: "fileExists s (cidToKey (ids ! j)) = 1"
    unfolding s_def ids_def by (rule registered_exists)
  have ascii: "String_length (ids ! j) = length (ids ! j)"
    using assms(3) by (simp add: ids_def)
  show ?thesis
    unfolding s_def [symmetric] ids_def [symmetric]
    by (simp add: getFileByIndex_def getFile_def lt mul rd ex ascii Let_def response_getFile
        response_getFileByIndex U256_BYTE_LENGTH_def del: write_all.simps split: sum.split)
qed




subsection \<open>Reading a record back\<close>

text \<open>
  After a registration that succeeds, \<open>getFile\<close> on its identifier and \<open>getFileByIndex\<close>
  on its ordinal find the record; the response is written when the UTF-8 bytes of the
  strings are no more than their \<open>length\<close>, that is for ASCII strings
  (\<open>String_length_ascii\<close>). For a name of one character of two bytes both methods throw.
\<close>

lemma written_readString:
  assumes "accepted s cid n z" "length cid < 2 ^ 30" "length n < 2 ^ 30"
  shows "readString (fileNameChunks (written tx s cid n z)) (cidToKey cid) = Inr n"
    and "readString (cidChunks (written tx s cid n z)) (totalFiles s * 256) = Inr cid"
proof -
  have "(length n + 31) div 32 < 2 ^ 26" using assms(3) by simp
  then have "unat (cidToKey cid) + (length n + 31) div 32 < 2 ^ 256"
    using unat_cidToKey_le [of cid] by simp
  from storeString_readString [OF assms(3) this]
  show "readString (fileNameChunks (written tx s cid n z)) (cidToKey cid) = Inr n" by simp
  from assms(1) have c: "unat (totalFiles s) * 256 < 2 ^ 256" by (simp add: accepted_def)
  have "unat (totalFiles s * 256) + (length cid + 31) div 32 < 2 ^ 256"
    using accepted_cid_fits [OF assms(1,2)] by (simp add: unat_times_256 [OF c])
  from storeString_readString [OF assms(2) this]
  show "readString (cidChunks (written tx s cid n z)) (totalFiles s * 256) = Inr cid" by simp
qed

lemma getFile_written:
  assumes "accepted s cid n z" "length cid < 2 ^ 30" "length n < 2 ^ 30"
  shows "getFile (written tx s cid n z) cid =
     (if length n \<le> String_length n
      then Inr (n, z, fromBytesBE (take 32 (tx_sender tx)), ucast (block_number tx),
                ucast (block_medianTimestamp tx), True)
      else Inl BufferTooSmall)"
  using getFile_hit [of "written tx s cid n z" cid n] written_readString(1) [OF assms]
  by simp

lemma getFileByIndex_written:
  assumes "accepted s cid n z" "length cid < 2 ^ 30" "length n < 2 ^ 30"
  shows "getFileByIndex (written tx s cid n z) (totalFiles s) =
     (if length cid + length n \<le> String_length cid + String_length n
      then Inr (cid, n, z, fromBytesBE (take 32 (tx_sender tx)), ucast (block_number tx),
                ucast (block_medianTimestamp tx))
      else Inl BufferTooSmall)"
proof -
  from assms(1) have c: "unat (totalFiles s) * 256 < 2 ^ 256" by (simp add: accepted_def)
  have "unat (totalFiles s + 1) = unat (totalFiles s) + 1" using c by (rule unat_count_succ)
  then have lt: "totalFiles s < totalFiles (written tx s cid n z)"
    by (simp add: word_less_nat_alt)
  from getFileByIndex_hit [OF lt c, of cid n] written_readString [OF assms, of tx]
  show ?thesis by simp
qed

lemma non_ascii_name_reverts:
  "fst (registerFile tx_U deployed (utf8 ''bafy123'') [0xC3, 0xA9] 2048) = Inr True \<and>
   getFile (snd (registerFile tx_U deployed (utf8 ''bafy123'') [0xC3, 0xA9] 2048)) (utf8 ''bafy123'')
     = Inl BufferTooSmall \<and>
   getFileByIndex (snd (registerFile tx_U deployed (utf8 ''bafy123'') [0xC3, 0xA9] 2048)) 0
     = Inl BufferTooSmall"
proof -
  have acc: "accepted deployed (utf8 ''bafy123'') [0xC3, 0xA9] 2048"
    by (rule accepted_sufficient) (simp_all add: utf8_def)
  have l: "String_length [0xC3, 0xA9] = 1" "String_length (utf8 ''bafy123'') = 7"
    "length (utf8 ''bafy123'') = 7"
    by (simp_all add: String_length_def code_units_def utf8_def)
  have len: "length (utf8 ''bafy123'') < 2 ^ 30" "length [0xC3, 0xA9 :: u8] < 2 ^ 30"
    by (simp_all add: utf8_def)
  from getFile_written [OF acc len, of tx_U] getFileByIndex_written [OF acc len, of tx_U]
  show ?thesis
    by (simp add: registerFile_accepted [OF acc] l)
qed

subsection \<open>An identifier of 8161 bytes\<close>

lemma long_accepted: "accepted deployed (replicate 8161 0x61) (utf8 ''n'') 1"
  by (rule accepted_sufficient) (simp_all add: utf8_def)

lemma long_store:
  "snd (storeString (\<lambda>_. 0) 0 (replicate 8161 0x61)) =
     write_chunks 0 (replicate 8161 0x61) [0..<256] ((\<lambda>_. 0)(0 := 8161))"
proof -
  have "storeString (\<lambda>_. 0) 0 (replicate 8161 (0x61 :: u8)) =
      (Inr (), write_chunks 0 (replicate 8161 0x61) [0..<(length (replicate 8161 (0x61 :: u8)) + 31) div 32]
                 ((\<lambda>_. 0)(0 := word_of_nat (length (replicate 8161 (0x61 :: u8))))))"
    by (rule storeString_ok) simp_all
  then show ?thesis by simp
qed

lemma long_slot_256:
  "toUint8Array (snd (storeString (\<lambda>_. 0) 0 (replicate 8161 0x61)) 256) ! 0 = 0x61"
proof -
  have "write_chunks 0 (replicate 8161 0x61) [0..<256] ((\<lambda>_. 0)(0 := 8161)) (0 + word_of_nat (255 + 1))
      = fromBytesBE (chunk_of (replicate 8161 0x61) 255)"
    by (rule write_chunks_at) simp_all
  then have "snd (storeString (\<lambda>_. 0) 0 (replicate 8161 0x61)) 256
      = fromBytesBE (chunk_of (replicate 8161 0x61) 255)"
    unfolding long_store by simp
  moreover have "chunk_of (replicate 8161 (0x61 :: u8)) (8160 div 32) ! (8160 mod 32)
      = replicate 8161 0x61 ! 8160"
    by (rule chunk_of_nth) simp
  ultimately show ?thesis by (simp add: toUint8Array_fromBytesBE)
qed

lemma long_slot_0: "snd (storeString (\<lambda>_. 0) 0 (replicate 8161 0x61)) 0 = 8161"
proof -
  have "write_chunks 0 (replicate 8161 0x61) [0..<256] ((\<lambda>_. 0)(0 := 8161)) 0 = ((\<lambda>_. 0)(0 := 8161)) (0 :: u256)"
  proof (rule write_chunks_other, rule ballI)
    fix i assume "i \<in> set [0..<256]"
    then have "i + 1 < 2 ^ 256" by simp
    from slot_neq_base [OF this, of 0] show "(0 :: u256) \<noteq> 0 + word_of_nat (i + 1)" by metis
  qed
  then show ?thesis unfolding long_store by simp
qed

lemma short_accepted:
  "accepted (written tx_U deployed (replicate 8161 0x61) (utf8 ''n'') 1) (utf8 ''b'') (utf8 ''n'') 1"
proof (rule accepted_sufficient)
  have "cidToKey (utf8 ''b'') \<noteq> cidToKey (replicate 8161 0x61)"
    using long_short_keys by (simp add: utf8_def)
  then show "fileExists (written tx_U deployed (replicate 8161 0x61) (utf8 ''n'') 1) (cidToKey (utf8 ''b'')) \<noteq> 1"
    by simp
qed (simp_all add: utf8_def)

lemma short_store:
  "snd (storeString m 256 (utf8 ''b'')) = write_chunks 256 (utf8 ''b'') [0..<1] (m(256 := 1))"
proof -
  have "storeString m 256 (utf8 ''b'') =
      (Inr (), write_chunks 256 (utf8 ''b'') [0..<(length (utf8 ''b'') + 31) div 32]
                 (m(256 := word_of_nat (length (utf8 ''b'')))))"
    by (rule storeString_ok) (simp_all add: utf8_def)
  then show ?thesis by (simp add: utf8_def)
qed

lemma short_slot_256: "snd (storeString m 256 (utf8 ''b'')) 256 = 1"
  unfolding short_store by (subst write_chunks_other) simp_all

lemma short_slot_0: "snd (storeString m 256 (utf8 ''b'')) 0 = m 0"
  unfolding short_store by (subst write_chunks_other) simp_all

lemma after_readString:
  "\<exists>cid. readString (cidChunks (written tx (written tx' deployed (replicate 8161 0x61) n' z')
              (utf8 ''b'') n z)) 0 = Inr cid \<and> length cid = 8161 \<and> cid ! 8160 = 0"
proof -
  define m where "m = cidChunks (written tx (written tx' deployed (replicate 8161 0x61) n' z') (utf8 ''b'') n z)"
  have b: "m 0 = word_of_nat 8161" by (simp add: m_def short_slot_0 long_slot_0)
  have "readString m 0 =
      Inr (map (\<lambda>j. toUint8Array (m (0 + word_of_nat (j div 32 + 1))) ! (j mod 32)) [0..<8161])"
    by (rule readString_ok [of m 0 8161, OF b]) simp_all
  moreover have "map (\<lambda>j. toUint8Array (m (0 + word_of_nat (j div 32 + 1))) ! (j mod 32)) [0..<8161] ! 8160
      = toUint8Array (m 256) ! 0"
    by (subst nth_map) simp_all
  moreover have "toUint8Array (m 256) ! 0 = 0"
    by (simp add: m_def short_slot_256 toUint8Array_def)
  ultimately show ?thesis unfolding m_def by simp
qed

lemma long_run1:
  "run deployed [RegisterFile tx_U (replicate 8161 0x61) (utf8 ''n'') 1] =
     written tx_U deployed (replicate 8161 0x61) (utf8 ''n'') 1"
  using long_accepted by (simp add: apply_call_RegisterFile del: apply_call.simps)

lemma long_run2:
  "run deployed [RegisterFile tx_U (replicate 8161 0x61) (utf8 ''n'') 1,
                 RegisterFile tx_U (utf8 ''b'') (utf8 ''n'') 1] =
     written tx_U (written tx_U deployed (replicate 8161 0x61) (utf8 ''n'') 1) (utf8 ''b'') (utf8 ''n'') 1"
  using long_accepted short_accepted by (simp add: apply_call_RegisterFile del: apply_call.simps)

lemma long_getFileByIndex:
  "getFileByIndex (written tx_U deployed (replicate 8161 0x61) (utf8 ''n'') 1) 0 =
     Inr (replicate 8161 0x61, utf8 ''n'', 1, fromBytesBE (replicate 32 0x55), 100, 1700000000)"
proof -
  have c: "readString (snd (storeString (\<lambda>_. 0) 0 (replicate 8161 (0x61 :: u8)))) 0
      = Inr (replicate 8161 0x61)"
    by (rule storeString_readString) simp_all
  have "unat (cidToKey (replicate 8161 0x61)) + (length (utf8 ''n'') + 31) div 32 < 2 ^ 256"
    using unat_cidToKey_le [of "replicate 8161 0x61"] by (simp add: utf8_def)
  then have n: "readString (snd (storeString (\<lambda>_. 0) (cidToKey (replicate 8161 0x61)) (utf8 ''n'')))
        (cidToKey (replicate 8161 0x61)) = Inr (utf8 ''n'')"
    by (intro storeString_readString) (simp_all add: utf8_def)
  have l: "String_length (utf8 ''n'') = 1" "length (utf8 ''n'') = 1"
    by (simp_all add: String_length_def code_units_def utf8_def)
  show ?thesis
    by (simp add: getFileByIndex_def SafeMath_mul_def c n l tx_U_def response_getFileByIndex
        U256_BYTE_LENGTH_def del: write_all.simps)
qed

lemma after_getFileByIndex:
  "getFileByIndex (written tx (written tx' deployed (replicate 8161 0x61) n' z') (utf8 ''b'') n z) 0
     \<noteq> Inr (replicate 8161 0x61, r)"
proof -
  obtain cid where c: "readString (cidChunks (written tx (written tx' deployed (replicate 8161 0x61) n' z')
              (utf8 ''b'') n z)) 0 = Inr cid" and "cid ! 8160 = 0"
    using after_readString by blast
  then have "cid \<noteq> replicate 8161 0x61" by auto
  then show ?thesis
    using c by (auto simp add: getFileByIndex_def SafeMath_mul_def Let_def split: sum.splits)
qed

section \<open>The claims\<close>

subsection \<open>C1: the round trip of the chunked string store\<close>

text \<open>
  C1, as stated: for every string and every base key, \<open>readString\<close> after
  \<open>storeString\<close> returns the string. At the last key of the key space the slot of
  the first chunk does not exist: \<open>SafeMath.add\<close> throws, and nothing can be read back.
\<close>

theorem storeString_last_key_counterexample:
  "fst (storeString (cidChunks empty_storage) (- 1) [0x61]) = Inl AdditionOverflow \<and>
   readString (snd (storeString (cidChunks empty_storage) (- 1) [0x61])) (- 1) \<noteq> Inr [0x61]"
  by (simp add: storeString_def readString_def SafeMath_add_def empty_storage_def
      i32_div_def signed_divide_int_def word_sless_alt unsigned_minus_1_eq_mask
      mask_eq_exp_minus_1)

text \<open>
  C1, amended: for every string \<open>s\<close> (the empty one and those of a length that is a
  multiple of 32 included) and every base key \<open>k\<close> whose chunk slots
  \<open>k + 1, \<dots>, k + \<lceil>length s / 32\<rceil>\<close> lie within the key space, \<open>storeString\<close>
  succeeds and \<open>readString\<close> then returns exactly \<open>s\<close>; for every other base key
  \<open>storeString\<close> fails with the overflow of \<open>SafeMath.add\<close>. The length of a string
  is below \<open>2 ^ 30\<close> bytes in the runtime.
\<close>

theorem storeString_readString_roundtrip:
  assumes "length s < 2 ^ 30"
  shows "if unat k + (length s + 31) div 32 < 2 ^ 256
         then fst (storeString m k s) = Inr () \<and> readString (snd (storeString m k s)) k = Inr s
         else fst (storeString m k s) = Inl AdditionOverflow"
  using storeString_ok [OF assms, of k m] storeString_readString [OF assms, of k m]
    storeString_overflow [OF assms, of k m]
  by simp

theorem storeString_readString_roundtrip_witness:
  "length (replicate 32 (0x61 :: u8)) < 2 ^ 30 \<and>
   fst (storeString (cidChunks empty_storage) 5 (replicate 32 0x61)) = Inr () \<and>
   readString (snd (storeString (cidChunks empty_storage) 5 (replicate 32 0x61))) 5
     = Inr (replicate 32 0x61)"
  using storeString_readString_roundtrip [of "replicate 32 (0x61 :: u8)" 5 "cidChunks empty_storage"]
  by simp

subsection \<open>C2: one registration per identifier\<close>

text \<open>
  C2, as stated: a second \<open>registerFile\<close> with the same identifier and any other
  arguments fails with "File already registered". The arguments are validated before
  the existence check: with an empty file name the second call fails with "File name
  cannot be empty".
\<close>

theorem registerFile_second_counterexample:
  "fst (registerFile tx_U deployed (utf8 ''cid1'') (utf8 ''a.txt'') 100) = Inr True \<and>
   fst (registerFile tx_U (snd (registerFile tx_U deployed (utf8 ''cid1'') (utf8 ''a.txt'') 100))
          (utf8 ''cid1'') [] 100) = Inl FileNameEmpty"
proof -
  have a: "fst (registerFile tx_U deployed (utf8 ''cid1'') (utf8 ''a.txt'') 100) = Inr True"
    by (simp add: eval_defs)
  have "\<not> paused (written tx_U deployed (utf8 ''cid1'') (utf8 ''a.txt'') 100)"
    by (simp add: deployed_def onDeployment_def empty_storage_def)
  then have "fst (registerFile tx_U (written tx_U deployed (utf8 ''cid1'') (utf8 ''a.txt'') 100)
          (utf8 ''cid1'') [] 100) = Inl FileNameEmpty"
    by (simp add: registerFile_invalid utf8_def)
  with a show ?thesis by (simp add: registerFile_Inr_written [OF a])
qed

text \<open>
  C2, amended: after \<open>registerFile\<close> has succeeded for an identifier, every later
  \<open>registerFile\<close> with that identifier, whatever the calls \<open>cs\<close> in between, fails and
  writes nothing: the store at the throw is the store of before the call. The error is
  "Contract paused" if the contract is paused, that of the validation if the new name is
  empty or the new size is zero, and "File already registered" in every other case: the
  existence check comes before the first write.
\<close>

theorem registerFile_second_fails:
  assumes "fst (registerFile tx s cid n z) = Inr r"
  shows "let t = run (snd (registerFile tx s cid n z)) cs in
         registerFile tx' t cid n' z' =
           (Inl (if paused t then ContractPaused
                 else if n' = [] then FileNameEmpty
                 else if z' = 0 then FileSizeZero
                 else FileAlreadyRegistered), t)"
proof -
  define t where "t = run (snd (registerFile tx s cid n z)) cs"
  have cid: "cid \<noteq> []"
    using registerFile_Inr_accepted [OF assms] by (simp add: accepted_def)
  have "fileExists (snd (registerFile tx s cid n z)) (cidToKey cid) = 1"
    by (simp add: registerFile_Inr_written [OF assms])
  then have ex: "fileExists t (cidToKey cid) = 1"
    unfolding t_def by (rule run_exists_keeps)
  have "registerFile tx' t cid n' z' =
           (Inl (if paused t then ContractPaused
                 else if n' = [] then FileNameEmpty
                 else if z' = 0 then FileSizeZero
                 else FileAlreadyRegistered), t)"
    using cid ex by (simp add: registerFile_def)
  then show ?thesis by (simp add: t_def Let_def)
qed

theorem registerFile_second_fails_witness:
  "fst (registerFile tx_U deployed (utf8 ''cid1'') (utf8 ''a.txt'') 100) = Inr True \<and>
   (let t = run (snd (registerFile tx_U deployed (utf8 ''cid1'') (utf8 ''a.txt'') 100))
              [GetFile (utf8 ''cid1'')]
    in registerFile tx_U t (utf8 ''cid1'') (utf8 ''b.txt'') 7 = (Inl FileAlreadyRegistered, t))"
proof -
  have a: "fst (registerFile tx_U deployed (utf8 ''cid1'') (utf8 ''a.txt'') 100) = Inr True"
    by (simp add: eval_defs)
  have eq: "snd (registerFile tx_U deployed (utf8 ''cid1'') (utf8 ''a.txt'') 100)
      = written tx_U deployed (utf8 ''cid1'') (utf8 ''a.txt'') 100"
    by (simp add: registerFile_Inr_written [OF a])
  have b: "\<not> paused (run (snd (registerFile tx_U deployed (utf8 ''cid1'') (utf8 ''a.txt'') 100))
              [GetFile (utf8 ''cid1'')])"
    unfolding eq by (simp add: deployed_def onDeployment_def empty_storage_def)
  have c: "utf8 ''b.txt'' \<noteq> []" "(7 :: u256) \<noteq> 0" by (simp_all add: utf8_def)
  from registerFile_second_fails [OF a, of "[GetFile (utf8 ''cid1'')]" tx_U "utf8 ''b.txt''" 7] a b c
  show ?thesis by (simp add: Let_def)
qed

subsection \<open>C3: the count of files\<close>

text \<open>
  C3: \<open>getTotalFiles\<close> is 0 after deployment; a \<open>registerFile\<close> that succeeds
  increases it by exactly 1, without wrapping; a \<open>registerFile\<close> that fails leaves it as
  it is, in the store at the throw and in the store after the revert; no call decreases
  it; after a run from deployment it is the number of registrations that succeeded.
\<close>

theorem totalFiles_monotone:
  "getTotalFiles deployed = 0 \<and>
   (\<forall>r. fst (registerFile tx s cid n z) = Inr r \<longrightarrow>
      unat (getTotalFiles (snd (registerFile tx s cid n z))) = unat (getTotalFiles s) + 1) \<and>
   (\<forall>e. fst (registerFile tx' s' cid' n' z') = Inl e \<longrightarrow>
      getTotalFiles (snd (registerFile tx' s' cid' n' z')) = getTotalFiles s' \<and>
      getTotalFiles (apply_call s' (RegisterFile tx' cid' n' z')) = getTotalFiles s') \<and>
   unat (getTotalFiles t) \<le> unat (getTotalFiles (apply_call t c)) \<and>
   unat (getTotalFiles (run deployed cs)) = length (registered deployed cs)"
proof -
  have a: "getTotalFiles deployed = 0"
    by (simp add: getTotalFiles_def deployed_def onDeployment_def)
  have b: "unat (getTotalFiles (snd (registerFile tx s cid n z))) = unat (getTotalFiles s) + 1"
    if "fst (registerFile tx s cid n z) = Inr r" for r
  proof -
    from registerFile_Inr_accepted [OF that] have "unat (totalFiles s) * 256 < 2 ^ 256"
      by (simp add: accepted_def)
    then show ?thesis
      by (simp add: getTotalFiles_def registerFile_Inr_written [OF that] unat_count_succ)
  qed
  have c: "getTotalFiles (snd (registerFile tx' s' cid' n' z')) = getTotalFiles s' \<and>
      getTotalFiles (apply_call s' (RegisterFile tx' cid' n' z')) = getTotalFiles s'"
    if "fst (registerFile tx' s' cid' n' z') = Inl e" for e
    using that registerFile_Inl_totalFiles(1) [OF that]
    by (simp add: getTotalFiles_def commit_def)
  have d: "unat (getTotalFiles t) \<le> unat (getTotalFiles (apply_call t c))"
    by (simp add: getTotalFiles_def apply_call_count_mono)
  have e: "unat (getTotalFiles (run deployed cs)) = length (registered deployed cs)"
    using run_count [of deployed cs] a by (simp add: getTotalFiles_def)
  from a b c d e show ?thesis by blast
qed

theorem totalFiles_monotone_witness:
  "fst (registerFile tx_U deployed (utf8 ''bafy123'') (utf8 ''report.pdf'') 2048) = Inr True \<and>
   unat (getTotalFiles (snd (registerFile tx_U deployed (utf8 ''bafy123'') (utf8 ''report.pdf'') 2048)))
     = unat (getTotalFiles deployed) + 1 \<and>
   fst (registerFile tx_U deployed (utf8 ''bafy123'') [] 2048) = Inl FileNameEmpty \<and>
   getTotalFiles (snd (registerFile tx_U deployed (utf8 ''bafy123'') [] 2048)) = getTotalFiles deployed"
proof -
  have a: "fst (registerFile tx_U deployed (utf8 ''bafy123'') (utf8 ''report.pdf'') 2048) = Inr True"
    by (simp add: eval_defs)
  have b: "fst (registerFile tx_U deployed (utf8 ''bafy123'') [] 2048) = Inl FileNameEmpty"
    by (simp add: registerFile_def deployed_def onDeployment_def empty_storage_def utf8_def)
  from a b totalFiles_monotone [of tx_U deployed "utf8 ''bafy123''" "utf8 ''report.pdf''" 2048
      tx_U deployed "utf8 ''bafy123''" "[]" 2048 deployed GetTotalFiles "[]"]
  show ?thesis by blast
qed

subsection \<open>C4: lookup by ordinal\<close>

text \<open>
  C4 says that \<open>getFileByIndex i\<close>, for \<open>i\<close> below the count, returns the identifier of
  the \<open>i\<close>-th registration that succeeded. \<open>registerFile\<close> does not bound the length of
  the identifier, and an identifier of 8161 bytes has 256 chunks, one more than the
  stride of 256 slots leaves room for. C4 at this input: after the registration of such an
  identifier and of a second one, both registrations have succeeded and the count is 2,
  but \<open>getFileByIndex 0\<close> returns no response that carries the first identifier.
\<close>

theorem getFileByIndex_long_identifier:
  "registered deployed [RegisterFile tx_U (replicate 8161 0x61) (utf8 ''n'') 1,
                        RegisterFile tx_U (utf8 ''b'') (utf8 ''n'') 1]
     = [replicate 8161 0x61, utf8 ''b''] \<and>
   getTotalFiles (run deployed [RegisterFile tx_U (replicate 8161 0x61) (utf8 ''n'') 1,
                                RegisterFile tx_U (utf8 ''b'') (utf8 ''n'') 1]) = 2 \<and>
   (\<forall>r. getFileByIndex (run deployed [RegisterFile tx_U (replicate 8161 0x61) (utf8 ''n'') 1,
                                      RegisterFile tx_U (utf8 ''b'') (utf8 ''n'') 1]) 0
          \<noteq> Inr (replicate 8161 0x61, r))"
proof -
  have "registered deployed [RegisterFile tx_U (replicate 8161 0x61) (utf8 ''n'') 1,
                        RegisterFile tx_U (utf8 ''b'') (utf8 ''n'') 1]
     = [replicate 8161 0x61, utf8 ''b'']"
    using long_accepted short_accepted
    by (simp add: registered_RegisterFile del: registered.simps(2))
  moreover have "getTotalFiles (run deployed [RegisterFile tx_U (replicate 8161 0x61) (utf8 ''n'') 1,
                                RegisterFile tx_U (utf8 ''b'') (utf8 ''n'') 1]) = 2"
    unfolding long_run2 by (simp add: getTotalFiles_def)
  moreover have "\<forall>r. getFileByIndex (run deployed [RegisterFile tx_U (replicate 8161 0x61) (utf8 ''n'') 1,
                                      RegisterFile tx_U (utf8 ''b'') (utf8 ''n'') 1]) 0
          \<noteq> Inr (replicate 8161 0x61, r)"
    unfolding long_run2 by (simp add: after_getFileByIndex)
  ultimately show ?thesis by blast
qed

subsection \<open>C5: pausing\<close>




subsection \<open>C6: looking up an identifier that is not registered\<close>

text \<open>
  C6, as stated: \<open>getFile\<close> on an identifier that was never registered returns the
  empty record. The contract knows an identifier by its derived key only, and
  \<open>cidToKey\<close> maps the \<open>2 ^ 129\<close> identifiers of 129 letters, each \<open>a\<close> or \<open>b\<close>, to at
  most \<open>2 ^ 128\<close> keys: two of them share a key, and after registering one, \<open>getFile\<close> on
  the other finds a record.
\<close>

theorem getFile_collision_counterexample:
  "\<not> (\<forall>cs cid. cid \<notin> set (registered deployed cs) \<longrightarrow>
         getFile (run deployed cs) cid = Inr ([], 0, 0, 0, 0, False))"
proof
  assume claim: "\<forall>cs cid. cid \<notin> set (registered deployed cs) \<longrightarrow>
         getFile (run deployed cs) cid = Inr ([], 0, 0, 0, 0, False)"
  obtain a b where ab: "a \<noteq> b" "length a = 129" "length b = 129" "cidToKey a = cidToKey b"
    using cidToKey_collision by blast
  have acc: "accepted deployed a [0x6e] 1"
    using ab(2) by (intro accepted_sufficient)
      (auto simp: deployed_def onDeployment_def empty_storage_def)
  define cs where "cs = [RegisterFile tx_U a [0x6e] 1]"
  have r: "registered deployed cs = [a]"
    using acc by (simp add: cs_def registered_RegisterFile del: registered.simps(2))
  have s: "run deployed cs = written tx_U deployed a [0x6e] 1"
    using acc by (simp add: cs_def apply_call_RegisterFile del: apply_call.simps)
  have "b \<notin> set (registered deployed cs)" using ab(1) by (simp add: r)
  with claim have "getFile (run deployed cs) b = Inr ([], 0, 0, 0, 0, False)" by blast
  moreover have "fileExists (run deployed cs) (cidToKey b) = 1"
    by (simp add: s ab(4))
  ultimately show False using getFile_hit_state by blast
qed

text \<open>
  C6, amended: \<open>getFile\<close> on an identifier whose derived key is the key of no
  identifier registered so far returns \<open>exists = false\<close> with the empty name and with
  size, uploader, block number and timestamp zero; it raises no error.
\<close>

theorem getFile_miss:
  assumes "cidToKey cid \<notin> cidToKey ` set (registered deployed cs)"
  shows "getFile (run deployed cs) cid = Inr ([], 0, 0, 0, 0, False)"
proof -
  have "fileExists deployed (cidToKey cid) \<noteq> 1"
    by (simp add: deployed_def onDeployment_def empty_storage_def)
  with assms run_exists_registered [of deployed cs "cidToKey cid"]
  have "fileExists (run deployed cs) (cidToKey cid) \<noteq> 1" by blast
  then show ?thesis by (rule getFile_miss_state)
qed

theorem getFile_miss_witness:
  "cidToKey (utf8 ''never-seen'')
     \<notin> cidToKey ` set (registered deployed
                        [RegisterFile tx_U (utf8 ''bafy123'') (utf8 ''report.pdf'') 2048]) \<and>
   getFile (run deployed [RegisterFile tx_U (utf8 ''bafy123'') (utf8 ''report.pdf'') 2048])
     (utf8 ''never-seen'') = Inr ([], 0, 0, 0, 0, False)"
proof -
  have acc: "accepted deployed (utf8 ''bafy123'') (utf8 ''report.pdf'') 2048"
    by (simp add: accepted_def eval_defs)
  have r: "registered deployed [RegisterFile tx_U (utf8 ''bafy123'') (utf8 ''report.pdf'') 2048]
     = [utf8 ''bafy123'']"
    using acc by (simp add: registered_RegisterFile del: registered.simps(2))
  have k: "cidToKey (utf8 ''never-seen'') \<noteq> cidToKey (utf8 ''bafy123'')"
    by (simp add: cidToKey_def u256_new_def utf8_def)
  have h: "cidToKey (utf8 ''never-seen'')
     \<notin> cidToKey ` set (registered deployed
                        [RegisterFile tx_U (utf8 ''bafy123'') (utf8 ''report.pdf'') 2048])"
    unfolding r using k by simp
  from h getFile_miss [OF h] show ?thesis by blast
qed

subsection \<open>C7: key derivation\<close>

text \<open>
  C7: \<open>cidToKey\<close> is a function of the bytes of the identifier alone, and its single loop
  computes two accumulators that do not depend on each other: \<open>hi\<close>, seeded with
  \<open>0xcbf29ce484222325\<close> and multiplied by \<open>0x100000001b3\<close> after the XOR with the byte,
  and \<open>lo\<close>, seeded with \<open>0x100000001b3\<close> and multiplied by \<open>0xcbf29ce484222325\<close> after
  the XOR with the byte plus its index. The seeds differ, both multipliers are odd, and the
  key is assembled from \<open>lo\<close>, \<open>hi\<close> and the complements of \<open>hi\<close> and \<open>lo\<close>.
\<close>

theorem cidToKey_two_accumulators:
  "cidToKey cid = deriveKey cid \<and>
   odd (0x100000001b3 :: u64) \<and> odd (0xcbf29ce484222325 :: u64) \<and>
   (0xcbf29ce484222325 :: u64) \<noteq> 0x100000001b3"
  by (simp add: cidToKey_def deriveKey_def cidToKey_loop_accumulate Let_def)

subsection \<open>C8: overflow\<close>

text \<open>
  C8: when \<open>registerFile\<close> succeeds, neither the product \<open>count * 256\<close> nor the
  increment of the count has wrapped; for a count whose product with 256 exceeds the 256
  bit range \<open>registerFile\<close> fails, and for such an index \<open>getFileByIndex\<close> fails.
\<close>

theorem overflow_fails_closed:
  "(\<forall>r. fst (registerFile tx s cid n z) = Inr r \<longrightarrow>
      unat (totalFiles s * 256) = unat (totalFiles s) * 256 \<and>
      unat (totalFiles (snd (registerFile tx s cid n z))) = unat (totalFiles s) + 1) \<and>
   (\<not> unat (totalFiles s') * 256 < 2 ^ 256 \<longrightarrow>
      (\<exists>e. fst (registerFile tx' s' cid' n' z') = Inl e)) \<and>
   (\<not> unat i * 256 < 2 ^ 256 \<longrightarrow> (\<exists>e. getFileByIndex t i = Inl e))"
proof -
  have a: "unat (totalFiles s * 256) = unat (totalFiles s) * 256 \<and>
      unat (totalFiles (snd (registerFile tx s cid n z))) = unat (totalFiles s) + 1"
    if "fst (registerFile tx s cid n z) = Inr r" for r
  proof -
    from registerFile_Inr_accepted [OF that] have "unat (totalFiles s) * 256 < 2 ^ 256"
      by (simp add: accepted_def)
    then show ?thesis
      by (simp add: registerFile_Inr_written [OF that] unat_count_succ unat_times_256)
  qed
  have b: "\<exists>e. fst (registerFile tx' s' cid' n' z') = Inl e"
    if "\<not> unat (totalFiles s') * 256 < 2 ^ 256"
  proof (cases "fst (registerFile tx' s' cid' n' z')")
    case (Inl e)
    then show ?thesis by blast
  next
    case (Inr r)
    from registerFile_Inr_accepted [OF this] that show ?thesis by (simp add: accepted_def)
  qed
  have c: "\<exists>e. getFileByIndex t i = Inl e" if "\<not> unat i * 256 < 2 ^ 256"
    using that by (simp add: getFileByIndex_def SafeMath_mul_def)
  from a b c show ?thesis by blast
qed

theorem overflow_fails_closed_witness:
  "fst (registerFile tx_U deployed (utf8 ''bafy123'') (utf8 ''report.pdf'') 2048) = Inr True \<and>
   unat (totalFiles (snd (registerFile tx_U deployed (utf8 ''bafy123'') (utf8 ''report.pdf'') 2048)))
     = unat (totalFiles deployed) + 1 \<and>
   \<not> unat (totalFiles (deployed\<lparr>totalFiles := 2 ^ 250\<rparr>)) * 256 < 2 ^ 256 \<and>
   (\<exists>e. fst (registerFile tx_U (deployed\<lparr>totalFiles := 2 ^ 250\<rparr>)
             (utf8 ''bafy123'') (utf8 ''report.pdf'') 2048) = Inl e) \<and>
   \<not> unat (2 ^ 250 :: u256) * 256 < 2 ^ 256 \<and>
   (\<exists>e. getFileByIndex (deployed\<lparr>totalFiles := 2 ^ 251\<rparr>) (2 ^ 250) = Inl e)"
proof -
  have a: "fst (registerFile tx_U deployed (utf8 ''bafy123'') (utf8 ''report.pdf'') 2048) = Inr True"
    by (simp add: eval_defs)
  have b: "\<not> unat (totalFiles (deployed\<lparr>totalFiles := 2 ^ 250\<rparr>)) * 256 < 2 ^ 256"
    by simp
  have c: "\<not> unat (2 ^ 250 :: u256) * 256 < 2 ^ 256" by simp
  from a b c overflow_fails_closed [of tx_U deployed "utf8 ''bafy123''" "utf8 ''report.pdf''" 2048
      "deployed\<lparr>totalFiles := 2 ^ 250\<rparr>" tx_U "utf8 ''bafy123''" "utf8 ''report.pdf''" 2048
      "2 ^ 250" "deployed\<lparr>totalFiles := 2 ^ 251\<rparr>"]
  show ?thesis by blast
qed

subsection \<open>C9: the spacing of the chunk regions\<close>

text \<open>
  C9 says that the chunk slots of one stored string never overlap the base or chunk
  slots of another, for every sequence of registrations the code accepts. C9 at an
  identifier of 8161 bytes, which \<open>registerFile\<close> accepts: the registration with ordinal
  0 writes the last chunk of its identifier into slot 256 of \<open>cidChunks\<close>, which is the
  base slot \<open>1 * 256\<close> of ordinal 1, and the next registration overwrites that slot with
  the length of its own identifier.
\<close>

theorem cidChunks_regions_overlap:
  "fst (registerFile tx_U deployed (replicate 8161 0x61) (utf8 ''n'') 1) = Inr True \<and>
   SafeMath_mul 1 256 = Inr 256 \<and>
   toUint8Array
     (cidChunks (run deployed [RegisterFile tx_U (replicate 8161 0x61) (utf8 ''n'') 1]) 256) ! 0
     = 0x61 \<and>
   cidChunks (run deployed [RegisterFile tx_U (replicate 8161 0x61) (utf8 ''n'') 1,
                            RegisterFile tx_U (utf8 ''b'') (utf8 ''n'') 1]) 256 = 1"
proof -
  have "fst (registerFile tx_U deployed (replicate 8161 0x61) (utf8 ''n'') 1) = Inr True"
    by (simp add: registerFile_accepted [OF long_accepted])
  moreover have "SafeMath_mul 1 256 = Inr 256"
    by (simp add: SafeMath_mul_def)
  moreover have "toUint8Array
     (cidChunks (run deployed [RegisterFile tx_U (replicate 8161 0x61) (utf8 ''n'') 1]) 256) ! 0
     = 0x61"
    unfolding long_run1 by (simp add: long_slot_256)
  moreover have "cidChunks (run deployed [RegisterFile tx_U (replicate 8161 0x61) (utf8 ''n'') 1,
                            RegisterFile tx_U (utf8 ''b'') (utf8 ''n'') 1]) 256 = 1"
    unfolding long_run2 by (simp add: short_slot_256)
  ultimately show ?thesis by blast
qed

subsection \<open>C10: what a registration leaves unchanged\<close>

text \<open>
  C10 says that a \<open>registerFile\<close> that succeeds leaves \<open>getFileByIndex j\<close> unchanged for
  every ordinal \<open>j\<close> below the count of before the call. C10 after the registration of
  an identifier of 8161 bytes: the count is 1 and \<open>getFileByIndex 0\<close> returns the record
  of that identifier; the registration of a second identifier succeeds, and
  \<open>getFileByIndex 0\<close> no longer returns what it returned before.
\<close>

theorem registerFile_frame_long_identifier:
  "getTotalFiles (run deployed [RegisterFile tx_U (replicate 8161 0x61) (utf8 ''n'') 1]) = 1 \<and>
   fst (registerFile tx_U (run deployed [RegisterFile tx_U (replicate 8161 0x61) (utf8 ''n'') 1])
          (utf8 ''b'') (utf8 ''n'') 1) = Inr True \<and>
   getFileByIndex (run deployed [RegisterFile tx_U (replicate 8161 0x61) (utf8 ''n'') 1]) 0
     = Inr (replicate 8161 0x61, utf8 ''n'', 1, fromBytesBE (replicate 32 0x55), 100, 1700000000) \<and>
   getFileByIndex
       (snd (registerFile tx_U (run deployed [RegisterFile tx_U (replicate 8161 0x61) (utf8 ''n'') 1])
               (utf8 ''b'') (utf8 ''n'') 1)) 0
     \<noteq> getFileByIndex (run deployed [RegisterFile tx_U (replicate 8161 0x61) (utf8 ''n'') 1]) 0"
  unfolding long_run1
  by (simp add: registerFile_accepted [OF short_accepted] long_getFileByIndex after_getFileByIndex
      getTotalFiles_def)

end
